theory Spec2Isabelle
  imports Main "HOL-Library.Word"
begin

unbundle bit_operations_syntax

section \<open>Syzygy tablebase probing in Cfish (tbprobe.c)\<close>

text \<open>
  This theory embeds the probing routines of \<^verbatim>\<open>src/tbprobe.c\<close> together with the
  parts of \<^verbatim>\<open>src/position.h\<close> they read. The engine behind the prober (move
  generation, making moves, legality, the table decoder of tbcore.c, the constants of
  types.h) is not part of the sources at hand; it enters as a record of functions, and
  every result below holds for all of them.

  Conventions.
  \<^item> C \<^verbatim>\<open>int\<close> values (WDL, DTZ, \<^verbatim>\<open>success\<close>, move values) are \<open>int\<close>. Where the
    probe of the root adds to a DTZ value, which can be the start value \<^verbatim>\<open>INT32_MAX\<close> of
    the search of lines 535 to 571, the result is reduced to 32 bits as the compiled code
    does (\<open>int32\<close>). The \<^verbatim>\<open>uint8_t\<close> fields are \<open>8 word\<close>, keys and bitboards
    \<open>64 word\<close>.
  \<^item> An array read with an index outside the array is the fault \<open>OutOfBounds\<close>.
  \<^item> The recursion over child positions has no bound in the C text; the embedding
    counts it down with a fuel argument and reports \<open>OutOfFuel\<close> when it is used up.
  \<^item> \<^verbatim>\<open>do_move\<close> and \<^verbatim>\<open>undo_move\<close> are balanced in every routine, so the child
    position is a value and the parent position is used again afterwards.
  \<^item> The move buffer (\<^verbatim>\<open>endMoves\<close>) only says where a generated list is stored; lists
    of children are written behind their parent's list, so a generated list is a value.
  \<^item> The mutex and the atomics around table initialisation are left out: the model is
    sequential.
\<close>

subsection \<open>Basic types\<close>

type_synonym Key = "64 word"
type_synonym Bitboard = "64 word"
type_synonym Square = nat
type_synonym Move = int
type_synonym Value = int

datatype fault = OutOfFuel | OutOfBounds

datatype MoveType = NORMAL | PROMOTION | ENPASSANT | CASTLING

text \<open>Leaving a loop by \<^verbatim>\<open>return\<close>, or falling through it with the loop variables.\<close>

datatype ('r, 'c) ctl = Return 'r | Next 'c

definition WHITE :: "8 word" where "WHITE = 0"
definition BLACK :: "8 word" where "BLACK = 1"
definition PAWN :: nat where "PAWN = 1"
definition KING :: nat where "KING = 6"

definition INT32_MAX :: int where "INT32_MAX = 2147483647"

subsection \<open>Positions (position.h)\<close>

text \<open>The fields of \<^verbatim>\<open>struct Stack\<close> and \<^verbatim>\<open>struct Pos\<close> that the prober reads.\<close>

record Stack =
  materialKey :: Key
  pliesFromNull :: "8 word"
  rule50 :: "8 word"
  key :: Key
  checkersBB :: Bitboard
  blockersForKing :: "nat \<Rightarrow> Bitboard"
  checkSquares :: "nat \<Rightarrow> Bitboard"

text \<open>
  \<^verbatim>\<open>pos->st\<close> points into an array of stack entries: \<open>st\<close> is the entry it points to
  and \<open>prev\<close> holds the entries below it, nearest first (\<open>prev ! 0\<close> is \<^verbatim>\<open>st - 1\<close>).
\<close>

record Pos =
  board :: "Square \<Rightarrow> 8 word"
  byTypeBB :: "nat \<Rightarrow> Bitboard"
  byColorBB :: "nat \<Rightarrow> Bitboard"
  sideToMove :: "8 word"
  st :: Stack
  prev :: "Stack list"

record ExtMove =
  move :: Move
  mvalue :: int

subsection \<open>Tables (tbcore.h), as far as tbprobe.c reads them\<close>

record TBEntry =
  ekey :: Key
  ready :: bool
  symmetric :: bool
  has_pawns :: bool
  payload :: nat

record TBHashEntry =
  hkey :: Key
  hptr :: nat

record DTZEntry =
  dkey :: Key
  dsymmetric :: bool
  dhas_pawns :: bool
  piece_flags :: "8 word"
  pawn_flags :: "nat \<Rightarrow> 8 word"
  piece_map_idx :: "nat \<Rightarrow> nat"
  pawn_map_idx :: "nat \<Rightarrow> nat \<Rightarrow> nat"
  dmap :: "nat \<Rightarrow> 8 word"
  dpayload :: nat

record DTZTableEntry =
  key1 :: Key
  key2 :: Key
  entry :: "DTZEntry option"

text \<open>
  The registry: \<open>TB_hash\<close> gives each bucket its slots, \<open>tb_entries\<close> is the memory the
  slots point into (two slots, for a key and its mirror, share one entry), and
  \<open>DTZ_table\<close> is the list of resident DTZ tables, most recently used first.
\<close>

record tbstate =
  TB_hash :: "nat \<Rightarrow> TBHashEntry list"
  tb_entries :: "nat \<Rightarrow> TBEntry"
  DTZ_table :: "DTZTableEntry list"

subsection \<open>The engine and the decoder, as parameters\<close>

record env =
  type_of_m :: "Move \<Rightarrow> MoveType"
  from_sq :: "Move \<Rightarrow> Square"
  to_sq :: "Move \<Rightarrow> Square"
  type_of_p :: "8 word \<Rightarrow> nat"
  sq_bb :: "Square \<Rightarrow> Bitboard"
  popcount :: "Bitboard \<Rightarrow> nat"
  generate_captures :: "Pos \<Rightarrow> Move list"
  generate_evasions :: "Pos \<Rightarrow> Move list"
  generate_non_evasions :: "Pos \<Rightarrow> Move list"
  generate_quiets :: "Pos \<Rightarrow> Move list"
  generate_legal :: "Pos \<Rightarrow> Move list"
  is_legal :: "Pos \<Rightarrow> Move \<Rightarrow> bool"
  gives_check_special :: "Pos \<Rightarrow> Move \<Rightarrow> bool"
  do_move :: "Pos \<Rightarrow> Move \<Rightarrow> bool \<Rightarrow> Pos"
  mat_key :: "nat \<Rightarrow> Key"
  pchr :: "nat \<Rightarrow> char"
  TBHASHBITS :: nat
  init_table_wdl :: "TBEntry \<Rightarrow> string \<Rightarrow> TBEntry option"
  wdl_piece_value :: "TBEntry \<Rightarrow> nat \<Rightarrow> nat \<Rightarrow> Pos \<Rightarrow> 8 word"
  wdl_pawn_value :: "TBEntry \<Rightarrow> nat \<Rightarrow> nat \<Rightarrow> nat \<Rightarrow> Pos \<Rightarrow> 8 word"
  load_dtz_table :: "string \<Rightarrow> Key \<Rightarrow> Key \<Rightarrow> DTZTableEntry"
  dtz_pawn_file :: "DTZEntry \<Rightarrow> nat \<Rightarrow> nat \<Rightarrow> Pos \<Rightarrow> nat"
  dtz_piece_value :: "DTZEntry \<Rightarrow> nat \<Rightarrow> Pos \<Rightarrow> 8 word"
  dtz_pawn_value :: "DTZEntry \<Rightarrow> nat \<Rightarrow> nat \<Rightarrow> nat \<Rightarrow> Pos \<Rightarrow> 8 word"
  wdl_to_map :: "nat list"
  pa_flags :: "8 word list"
  VALUE_MATE :: Value
  VALUE_DRAW :: Value
  MAX_PLY :: int
  PawnValueEg :: Value

subsection \<open>Macros and inline functions of position.h\<close>

definition pieces_cp :: "Pos \<Rightarrow> nat \<Rightarrow> nat \<Rightarrow> Bitboard" where
  "pieces_cp pos c p = (byTypeBB pos p AND byColorBB pos c)"

definition pieces_c :: "Pos \<Rightarrow> nat \<Rightarrow> Bitboard" where
  "pieces_c pos c = byColorBB pos c"

definition piece_on :: "Pos \<Rightarrow> Square \<Rightarrow> 8 word" where
  "piece_on pos s = board pos s"

definition is_empty :: "Pos \<Rightarrow> Square \<Rightarrow> bool" where
  "is_empty pos s = (piece_on pos s = 0)"

definition moved_piece :: "env \<Rightarrow> Pos \<Rightarrow> Move \<Rightarrow> 8 word" where
  "moved_piece E pos m = piece_on pos (from_sq E m)"

definition pos_checkers :: "Pos \<Rightarrow> Bitboard" where
  "pos_checkers pos = checkersBB (st pos)"

definition pos_material_key :: "Pos \<Rightarrow> Key" where
  "pos_material_key pos = materialKey (st pos)"

definition pos_stm :: "Pos \<Rightarrow> 8 word" where
  "pos_stm pos = sideToMove pos"

definition pos_rule50_count :: "Pos \<Rightarrow> int" where
  "pos_rule50_count pos = uint (rule50 (st pos))"

definition discovered_check_candidates :: "Pos \<Rightarrow> Bitboard" where
  "discovered_check_candidates pos =
     (blockersForKing (st pos) (unat (pos_stm pos XOR 1)) AND pieces_c pos (unat (pos_stm pos)))"

definition is_capture :: "env \<Rightarrow> Pos \<Rightarrow> Move \<Rightarrow> bool" where
  "is_capture E pos m =
     ((\<not> is_empty pos (to_sq E m) \<and> type_of_m E m \<noteq> CASTLING) \<or> type_of_m E m = ENPASSANT)"

definition gives_check :: "env \<Rightarrow> Pos \<Rightarrow> Move \<Rightarrow> bool" where
  "gives_check E pos m =
     (if type_of_m E m = NORMAL \<and> discovered_check_candidates pos = 0
      then (checkSquares (st pos) (type_of_p E (moved_piece E pos m)) AND sq_bb E (to_sq E m)) \<noteq> 0
      else gives_check_special E pos m)"

subsection \<open>Material strings and keys\<close>

text \<open>
  \<^verbatim>\<open>prt_str\<close>: the pieces of one colour from king down to pawn, one letter for each
  piece on the board, then \<^verbatim>\<open>v\<close>, then the same for the other colour.
\<close>

definition side_str :: "env \<Rightarrow> Pos \<Rightarrow> nat \<Rightarrow> string" where
  "side_str E pos color =
     concat (map (\<lambda>pt. replicate (popcount E (pieces_cp pos color pt)) (pchr E (6 - pt)))
                 (rev [PAWN ..< Suc KING]))"

definition prt_str :: "env \<Rightarrow> Pos \<Rightarrow> bool \<Rightarrow> string" where
  "prt_str E pos mirror =
     (let color = (if \<not> mirror then unat WHITE else unat BLACK)
      in side_str E pos color @ ''v'' @ side_str E pos (if color = 0 then 1 else 0))"

definition calc_key :: "env \<Rightarrow> Pos \<Rightarrow> bool \<Rightarrow> Key" where
  "calc_key E pos mirror =
     (let color = (if \<not> mirror then unat WHITE else unat BLACK);
          other = (if color = 0 then 1 else 0)
      in (\<Sum>pt \<leftarrow> [PAWN ..< Suc KING]. mat_key E pt * of_nat (popcount E (pieces_cp pos color pt)))
       + (\<Sum>pt \<leftarrow> [PAWN ..< Suc KING]. mat_key E (pt + 8) * of_nat (popcount E (pieces_cp pos other pt))))"

subsection \<open>Reading the WDL table\<close>

text \<open>
  Lines 117 to 131 (and 217 to 231): which stored perspective is read, and whether
  squares and colours are mirrored before indexing. The result is
  \<open>(bside, mirror, cmirror)\<close>.
\<close>

definition perspective :: "bool \<Rightarrow> Key \<Rightarrow> Key \<Rightarrow> 8 word \<Rightarrow> nat \<times> nat \<times> nat" where
  "perspective symm k ptr_key stm =
     (if \<not> symm then
        (if k \<noteq> ptr_key then ((if stm = WHITE then 1 else 0), 0x38, 8)
         else ((if \<not> (stm = WHITE) then 1 else 0), 0, 0))
      else (0, (if stm = WHITE then 0 else 0x38), (if stm = WHITE then 0 else 8)))"

text \<open>The scan of a bucket for the slot that holds the key.\<close>

fun find_slot :: "Key \<Rightarrow> TBHashEntry list \<Rightarrow> nat \<Rightarrow> nat option" where
  "find_slot k [] i = None"
| "find_slot k (e # es) i = (if hkey e = k then Some i else find_slot k es (Suc i))"

definition hash_index :: "env \<Rightarrow> Key \<Rightarrow> nat" where
  "hash_index E k = unat (drop_bit (64 - TBHASHBITS E) k)"

text \<open>
  \<^verbatim>\<open>probe_wdl_table\<close>. The result is the value, \<^verbatim>\<open>*success\<close> on return and the
  registry on return. \<^verbatim>\<open>*success\<close> is written only when the probe fails. Collecting
  the squares, indexing and decompressing (lines 136 to 166) is the decoder's work:
  \<open>wdl_piece_value\<close> and \<open>wdl_pawn_value\<close> stand for it and return the stored byte.
\<close>

definition probe_wdl_table :: "env \<Rightarrow> tbstate \<Rightarrow> Pos \<Rightarrow> int \<Rightarrow> int \<times> int \<times> tbstate" where
  "probe_wdl_table E ts pos success =
     (let k = pos_material_key pos in
      if k = 2 then (0, success, ts)
      else
        let b = hash_index E k; ptr2 = TB_hash ts b in
        case find_slot k ptr2 0 of
          None \<Rightarrow> (0, 0, ts)
        | Some i \<Rightarrow>
            (let p = hptr (ptr2 ! i); e = tb_entries ts p in
            case (if ready e then Some ts
                  else (case init_table_wdl E e (prt_str E pos (ekey e \<noteq> k)) of
                          None \<Rightarrow> None
                        | Some e' \<Rightarrow> Some (ts\<lparr>tb_entries := (tb_entries ts)(p := e'\<lparr>ready := True\<rparr>)\<rparr>))) of
              None \<Rightarrow> (0, 0, ts\<lparr>TB_hash := (TB_hash ts)(b := ptr2[i := (ptr2 ! i)\<lparr>hkey := 0\<rparr>])\<rparr>)
            | Some ts' \<Rightarrow>
                let e' = tb_entries ts' p in
                (case perspective (symmetric e') k (ekey e') (pos_stm pos) of
                   (bside, mirror, cmirror) \<Rightarrow>
                     (let res = (if \<not> has_pawns e' then wdl_piece_value E e' bside cmirror pos
                                 else wdl_pawn_value E e' bside mirror cmirror pos)
                      in (uint res - 2, success, ts')))))"

subsection \<open>Capture resolution\<close>

definition add_underprom_caps :: "env \<Rightarrow> Pos \<Rightarrow> Move list \<Rightarrow> Move list" where
  "add_underprom_caps E pos ms =
     ms @ concat (map (\<lambda>m. if type_of_m E m = PROMOTION \<and> piece_on pos (to_sq E m) \<noteq> 0
                            then [m - 1 * 2 ^ 12, m - 2 * 2 ^ 12, m - 3 * 2 ^ 12] else []) ms)"

text \<open>The list both \<^verbatim>\<open>probe_ab\<close> and \<^verbatim>\<open>TB_probe_wdl\<close> generate first.\<close>

definition capture_list :: "env \<Rightarrow> Pos \<Rightarrow> Move list" where
  "capture_list E pos =
     (if pos_checkers pos = 0 then add_underprom_caps E pos (generate_captures E pos)
      else generate_evasions E pos)"

fun probe_ab :: "nat \<Rightarrow> env \<Rightarrow> tbstate \<Rightarrow> Pos \<Rightarrow> int \<Rightarrow> int \<Rightarrow> int \<Rightarrow> fault + (int \<times> int \<times> tbstate)"
and probe_ab_moves ::
  "nat \<Rightarrow> env \<Rightarrow> tbstate \<Rightarrow> Pos \<Rightarrow> Move list \<Rightarrow> int \<Rightarrow> int \<Rightarrow> int \<Rightarrow> fault + (int \<times> int \<times> tbstate)"
where
  "probe_ab 0 E ts pos alpha beta success = Inl OutOfFuel"
| "probe_ab (Suc n) E ts pos alpha beta success =
     probe_ab_moves n E ts pos (capture_list E pos) alpha beta success"
| "probe_ab_moves n E ts pos [] alpha beta success =
     (case probe_wdl_table E ts pos success of
        (v, success', ts') \<Rightarrow> Inr (if alpha \<ge> v then alpha else v, success', ts'))"
| "probe_ab_moves n E ts pos (m # ms) alpha beta success =
     (if \<not> is_capture E pos m \<or> \<not> is_legal E pos m
      then probe_ab_moves n E ts pos ms alpha beta success
      else
        case probe_ab n E ts (do_move E pos m (gives_check E pos m)) (- beta) (- alpha) success of
          Inl f \<Rightarrow> Inl f
        | Inr (r, success', ts') \<Rightarrow>
            let v = - r in
            if success' = 0 then Inr (0, success', ts')
            else if v > alpha then
              (if v \<ge> beta then Inr (v, success', ts')
               else probe_ab_moves n E ts' pos ms v beta success')
            else probe_ab_moves n E ts' pos ms alpha beta success')"

text \<open>
  The capture loop of \<^verbatim>\<open>TB_probe_wdl\<close> (lines 378 to 396). It either returns from
  the probe, or falls through with \<open>(best_cap, best_ep, success, registry)\<close>.
\<close>

fun wdl_captures ::
  "nat \<Rightarrow> env \<Rightarrow> tbstate \<Rightarrow> Pos \<Rightarrow> Move list \<Rightarrow> int \<Rightarrow> int \<Rightarrow> int
     \<Rightarrow> fault + (int \<times> int \<times> tbstate, int \<times> int \<times> int \<times> tbstate) ctl"
where
  "wdl_captures n E ts pos [] best_cap best_ep success = Inr (Next (best_cap, best_ep, success, ts))"
| "wdl_captures n E ts pos (m # ms) best_cap best_ep success =
     (if \<not> is_capture E pos m \<or> \<not> is_legal E pos m
      then wdl_captures n E ts pos ms best_cap best_ep success
      else
        case probe_ab n E ts (do_move E pos m (gives_check E pos m)) (- 2) (- best_cap) success of
          Inl f \<Rightarrow> Inl f
        | Inr (r, success', ts') \<Rightarrow>
            let v = - r in
            if success' = 0 then Inr (Return (0, success', ts'))
            else if v > best_cap then
              (if v = 2 then Inr (Return (2, 2, ts'))
               else if type_of_m E m \<noteq> ENPASSANT
                 then wdl_captures n E ts' pos ms v best_ep success'
               else if v > best_ep
                 then wdl_captures n E ts' pos ms best_cap v success'
               else wdl_captures n E ts' pos ms best_cap best_ep success')
            else wdl_captures n E ts' pos ms best_cap best_ep success')"

text \<open>
  The stalemate test (lines 428 to 441): no move of the first list other than an
  en-passant capture is legal and, when the side to move is not in check, no quiet
  move is legal either.
\<close>

definition no_legal_non_ep :: "env \<Rightarrow> Pos \<Rightarrow> Move list \<Rightarrow> bool" where
  "no_legal_non_ep E pos ms =
     list_all (\<lambda>m. type_of_m E m = ENPASSANT \<or> \<not> is_legal E pos m) ms"

definition stalemate_without_ep :: "env \<Rightarrow> Pos \<Rightarrow> Move list \<Rightarrow> bool" where
  "stalemate_without_ep E pos ms =
     (no_legal_non_ep E pos ms \<and>
      (pos_checkers pos \<noteq> 0 \<or> list_all (\<lambda>m. \<not> is_legal E pos m) (generate_quiets E pos)))"

text \<open>Lines 398 to 449: the table value and its reconciliation with the captures.\<close>

definition wdl_reconcile ::
  "env \<Rightarrow> Pos \<Rightarrow> Move list \<Rightarrow> int \<Rightarrow> int \<Rightarrow> int \<Rightarrow> int \<Rightarrow> int \<times> int" where
  "wdl_reconcile E pos ms best_cap best_ep v success =
     (if best_ep > best_cap \<and> best_ep > v then (best_ep, 2)
      else
        let best_cap' = (if best_ep > best_cap then best_ep else best_cap) in
        if best_cap' \<ge> v then (best_cap', 1 + (if best_cap' > 0 then 1 else 0))
        else if best_ep > - 3 \<and> v = 0 \<and> stalemate_without_ep E pos ms then (best_ep, 2)
        else (v, success))"

definition TB_probe_wdl :: "nat \<Rightarrow> env \<Rightarrow> tbstate \<Rightarrow> Pos \<Rightarrow> fault + (int \<times> int \<times> tbstate)" where
  "TB_probe_wdl n E ts pos =
     (let ms = capture_list E pos in
      case wdl_captures n E ts pos ms (- 3) (- 3) 1 of
        Inl f \<Rightarrow> Inl f
      | Inr (Return r) \<Rightarrow> Inr r
      | Inr (Next (best_cap, best_ep, success, ts1)) \<Rightarrow>
          (case probe_wdl_table E ts1 pos success of
             (v, success2, ts2) \<Rightarrow>
               if success2 = 0 then Inr (0, success2, ts2)
               else (case wdl_reconcile E pos ms best_cap best_ep v success2 of
                       (w, s) \<Rightarrow> Inr (w, s, ts2))))"

subsection \<open>Reading the DTZ table\<close>

text \<open>A read of a C array: outside the array it is a fault.\<close>

definition array_at :: "'a list \<Rightarrow> int \<Rightarrow> fault + 'a" where
  "array_at xs i = (if 0 \<le> i \<and> i < int (length xs) then Inr (xs ! nat i) else Inl OutOfBounds)"

definition wdl_to_dtz :: "int list" where
  "wdl_to_dtz = [- 1, - 101, 0, 101, 1]"

fun find_dtz :: "Key \<Rightarrow> DTZTableEntry list \<Rightarrow> nat \<Rightarrow> nat option" where
  "find_dtz k [] i = None"
| "find_dtz k (e # es) i = (if key1 e = k \<or> key2 e = k then Some i else find_dtz k es (Suc i))"

text \<open>
  Lines 183 to 209: bring the table for the key to the front of \<open>DTZ_table\<close>, loading
  it when it is not resident. \<open>None\<close> is the exit with \<^verbatim>\<open>*success = 0\<close> when no
  table is registered for the key.
\<close>

definition dtz_to_front :: "env \<Rightarrow> tbstate \<Rightarrow> Pos \<Rightarrow> Key \<Rightarrow> fault + tbstate option" where
  "dtz_to_front E ts pos k =
     (case DTZ_table ts of
        [] \<Rightarrow> Inl OutOfBounds
      | t0 # rest \<Rightarrow>
          if key1 t0 \<noteq> k \<and> key2 t0 \<noteq> k then
            (case find_dtz k rest 1 of
               Some i \<Rightarrow>
                 Inr (Some (ts\<lparr>DTZ_table := (DTZ_table ts ! i) # take i (DTZ_table ts) @ drop (Suc i) (DTZ_table ts)\<rparr>))
             | None \<Rightarrow>
                 let ptr2 = TB_hash ts (hash_index E k) in
                 (case find_slot k ptr2 0 of
                    None \<Rightarrow> Inr None
                  | Some i \<Rightarrow>
                      let e = tb_entries ts (hptr (ptr2 ! i));
                          mirror = (ekey e \<noteq> k);
                          str = prt_str E pos mirror;
                          loaded = load_dtz_table E str (calc_key E pos mirror) (calc_key E pos (\<not> mirror))
                      in Inr (Some (ts\<lparr>DTZ_table := loaded # butlast (DTZ_table ts)\<rparr>))))
          else Inr (Some ts))"

text \<open>Lines 249 to 253 and 278 to 282: the remapping and the doubling of the stored byte.\<close>

definition dtz_value :: "env \<Rightarrow> 8 word \<Rightarrow> (nat \<Rightarrow> nat) \<Rightarrow> (nat \<Rightarrow> 8 word) \<Rightarrow> int \<Rightarrow> int \<Rightarrow> fault + int" where
  "dtz_value E fl midx mp wdl res =
     (case (if fl AND 2 \<noteq> 0
            then (case array_at (wdl_to_map E) (wdl + 2) of
                    Inl f \<Rightarrow> Inl f
                  | Inr w \<Rightarrow> Inr (uint (mp (midx w + nat res))))
            else Inr res) of
        Inl f \<Rightarrow> Inl f
      | Inr res1 \<Rightarrow>
          (case array_at (pa_flags E) (wdl + 2) of
             Inl f \<Rightarrow> Inl f
           | Inr pf \<Rightarrow> Inr (if fl AND pf = 0 \<or> wdl AND 1 \<noteq> 0 then res1 * 2 else res1)))"

text \<open>
  \<^verbatim>\<open>probe_dtz_table\<close>. A table stored for the other side to move is reported by
  \<^verbatim>\<open>*success = -1\<close>.
\<close>

definition probe_dtz_table ::
  "env \<Rightarrow> tbstate \<Rightarrow> Pos \<Rightarrow> int \<Rightarrow> int \<Rightarrow> fault + (int \<times> int \<times> tbstate)" where
  "probe_dtz_table E ts pos wdl success =
     (let k = pos_material_key pos in
      case dtz_to_front E ts pos k of
        Inl f \<Rightarrow> Inl f
      | Inr None \<Rightarrow> Inr (0, 0, ts)
      | Inr (Some ts') \<Rightarrow>
          (case DTZ_table ts' of
             [] \<Rightarrow> Inl OutOfBounds
           | t0 # rest \<Rightarrow>
               (case entry t0 of
                  None \<Rightarrow> Inr (0, 0, ts')
                | Some e \<Rightarrow>
                    (case perspective (dsymmetric e) k (dkey e) (pos_stm pos) of
                       (bside, mirror, cmirror) \<Rightarrow>
                         if \<not> dhas_pawns e then
                           (if unat (piece_flags e AND 1) \<noteq> bside \<and> \<not> dsymmetric e
                            then Inr (0, - 1, ts')
                            else
                              (case dtz_value E (piece_flags e) (piece_map_idx e) (dmap e) wdl
                                      (uint (dtz_piece_value E e cmirror pos)) of
                                 Inl f \<Rightarrow> Inl f
                               | Inr res \<Rightarrow> Inr (res, success, ts')))
                         else
                           (let f = dtz_pawn_file E e mirror cmirror pos in
                            if unat (pawn_flags e f AND 1) \<noteq> bside
                            then Inr (0, - 1, ts')
                            else
                              (case dtz_value E (pawn_flags e f) (pawn_map_idx e f) (dmap e) wdl
                                      (uint (dtz_pawn_value E e f mirror cmirror pos)) of
                                 Inl f \<Rightarrow> Inl f
                               | Inr res \<Rightarrow> Inr (res, success, ts')))))))"

subsection \<open>The DTZ probe\<close>

definition all_moves :: "env \<Rightarrow> Pos \<Rightarrow> Move list" where
  "all_moves E pos =
     (if pos_checkers pos = 0 then generate_non_evasions E pos else generate_evasions E pos)"

text \<open>
  Lines 509 to 520: the search for a winning pawn move. It returns from the probe, or
  falls through with \<^verbatim>\<open>*success\<close> as the last child probe left it.
\<close>

fun dtz_pawn_moves ::
  "nat \<Rightarrow> env \<Rightarrow> tbstate \<Rightarrow> Pos \<Rightarrow> Move list \<Rightarrow> int \<Rightarrow> int
     \<Rightarrow> fault + (int \<times> int \<times> tbstate, int \<times> tbstate) ctl"
where
  "dtz_pawn_moves n E ts pos [] wdl success = Inr (Next (success, ts))"
| "dtz_pawn_moves n E ts pos (m # ms) wdl success =
     (if type_of_p E (moved_piece E pos m) \<noteq> PAWN \<or> is_capture E pos m \<or> \<not> is_legal E pos m
      then dtz_pawn_moves n E ts pos ms wdl success
      else
        case TB_probe_wdl n E ts (do_move E pos m (gives_check E pos m)) of
          Inl f \<Rightarrow> Inl f
        | Inr (r, success', ts') \<Rightarrow>
            let v = - r in
            if success' = 0 then Inr (Return (0, success', ts'))
            else if v = wdl then
              (case array_at wdl_to_dtz (wdl + 2) of
                 Inl f \<Rightarrow> Inl f
               | Inr d \<Rightarrow> Inr (Return (d, success', ts')))
            else dtz_pawn_moves n E ts' pos ms wdl success')"

text \<open>
  \<^verbatim>\<open>TB_probe_dtz\<close>, with the loop of lines 551 to 570 over the moves that are neither
  captures nor pawn moves as \<open>dtz_moves\<close>.
\<close>

fun TB_probe_dtz :: "nat \<Rightarrow> env \<Rightarrow> tbstate \<Rightarrow> Pos \<Rightarrow> fault + (int \<times> int \<times> tbstate)"
and dtz_moves ::
  "nat \<Rightarrow> env \<Rightarrow> tbstate \<Rightarrow> Pos \<Rightarrow> Move list \<Rightarrow> int \<Rightarrow> int \<Rightarrow> int \<Rightarrow> fault + (int \<times> int \<times> tbstate)"
where
  "TB_probe_dtz 0 E ts pos = Inl OutOfFuel"
| "TB_probe_dtz (Suc n) E ts pos =
     (case TB_probe_wdl n E ts pos of
        Inl f \<Rightarrow> Inl f
      | Inr (wdl, success, ts1) \<Rightarrow>
          if success = 0 then Inr (0, success, ts1)
          else if wdl = 0 then Inr (0, success, ts1)
          else if success = 2 then
            (case array_at wdl_to_dtz (wdl + 2) of
               Inl f \<Rightarrow> Inl f
             | Inr d \<Rightarrow> Inr (d, success, ts1))
          else
            (case (if wdl > 0 then dtz_pawn_moves n E ts1 pos (all_moves E pos) wdl success
                   else Inr (Next (success, ts1))) of
               Inl f \<Rightarrow> Inl f
             | Inr (Return r) \<Rightarrow> Inr r
             | Inr (Next (success2, ts2)) \<Rightarrow>
                 (case probe_dtz_table E ts2 pos wdl success2 of
                    Inl f \<Rightarrow> Inl f
                  | Inr (dtz, success3, ts3) \<Rightarrow>
                      if success3 \<ge> 0 then
                        (case array_at wdl_to_dtz (wdl + 2) of
                           Inl f \<Rightarrow> Inl f
                         | Inr d \<Rightarrow> Inr (d + (if wdl > 0 then dtz else - dtz), success3, ts3))
                      else
                        (case (if wdl > 0 then Inr INT32_MAX else array_at wdl_to_dtz (wdl + 2)) of
                           Inl f \<Rightarrow> Inl f
                         | Inr best \<Rightarrow> dtz_moves n E ts3 pos (all_moves E pos) wdl best success3))))"
| "dtz_moves n E ts pos [] wdl best success = Inr (best, success, ts)"
| "dtz_moves n E ts pos (m # ms) wdl best success =
     (if is_capture E pos m \<or> type_of_p E (moved_piece E pos m) = PAWN \<or> \<not> is_legal E pos m
      then dtz_moves n E ts pos ms wdl best success
      else
        case TB_probe_dtz n E ts (do_move E pos m (gives_check E pos m)) of
          Inl f \<Rightarrow> Inl f
        | Inr (r, success', ts') \<Rightarrow>
            let v = - r in
            if success' = 0 then Inr (0, success', ts')
            else if wdl > 0 then
              (if v > 0 \<and> v + 1 < best
               then dtz_moves n E ts' pos ms wdl (v + 1) success'
               else dtz_moves n E ts' pos ms wdl best success')
            else
              (if v - 1 < best
               then dtz_moves n E ts' pos ms wdl (v - 1) success'
               else dtz_moves n E ts' pos ms wdl best success'))"

subsection \<open>Repetitions\<close>

text \<open>
  \<^verbatim>\<open>has_repeated\<close>. The inner loop compares the key of \<^verbatim>\<open>st\<close> with the keys of
  \<^verbatim>\<open>st - 4\<close>, \<^verbatim>\<open>st - 6\<close>, ... as far as \<^verbatim>\<open>pliesFromNull\<close> reaches; \<open>below\<close> holds the
  entries under \<^verbatim>\<open>st\<close>, so \<^verbatim>\<open>st - i\<close> is \<open>below ! (i - 1)\<close>. The outer loop steps
  \<^verbatim>\<open>st\<close> down by one entry.
\<close>

function rep_scan :: "Key \<Rightarrow> Stack list \<Rightarrow> nat \<Rightarrow> nat \<Rightarrow> fault + bool" where
  "rep_scan k below i e =
     (if length below \<le> i - 1 then Inl OutOfBounds
      else if key (below ! (i - 1)) = k then Inr True
      else if i + 2 \<le> e then rep_scan k below (i + 2) e
      else Inr False)"
  by pat_completeness auto
termination
  by (relation "measure (\<lambda>(k, below, i, e). e - i)") auto

declare rep_scan.simps [simp del]

fun has_repeated_from :: "Stack \<Rightarrow> Stack list \<Rightarrow> fault + bool" where
  "has_repeated_from s below =
     (let e = unat (pliesFromNull s) in
      if e < 4 then Inr False
      else
        case rep_scan (key s) below 4 e of
          Inl f \<Rightarrow> Inl f
        | Inr True \<Rightarrow> Inr True
        | Inr False \<Rightarrow>
            (case below of
               [] \<Rightarrow> Inl OutOfBounds
             | s' # below' \<Rightarrow> has_repeated_from s' below'))"

definition has_repeated :: "Pos \<Rightarrow> fault + bool" where
  "has_repeated pos = has_repeated_from (st pos) (prev pos)"

subsection \<open>Filtering the root moves\<close>

text \<open>C division of \<^verbatim>\<open>int\<close> values truncates towards zero.\<close>

definition c_div :: "int \<Rightarrow> int \<Rightarrow> int" where
  "c_div a b = sgn a * sgn b * (\<bar>a\<bar> div \<bar>b\<bar>)"

definition wdl_to_Value :: "env \<Rightarrow> Value list" where
  "wdl_to_Value E =
     [- VALUE_MATE E + MAX_PLY E + 1, VALUE_DRAW E - 2, VALUE_DRAW E, VALUE_DRAW E + 2,
      VALUE_MATE E - MAX_PLY E - 1]"

text \<open>Lines 619 to 636: the value of one root move.\<close>

definition root_child_value ::
  "nat \<Rightarrow> env \<Rightarrow> tbstate \<Rightarrow> Pos \<Rightarrow> int \<Rightarrow> int \<Rightarrow> Move \<Rightarrow> fault + (int \<times> int \<times> tbstate)" where
  "root_child_value n E ts pos dtz success m =
     (let child = do_move E pos m (gives_check E pos m);
          v0 = (if pos_checkers child \<noteq> 0 \<and> dtz > 0 \<and> generate_legal E child = [] then 1 else 0 :: int)
      in
        if v0 \<noteq> 0 then Inr (v0, success, ts)
        else if pos_rule50_count child \<noteq> 0 then
          (case TB_probe_dtz n E ts child of
             Inl f \<Rightarrow> Inl f
           | Inr (r, success', ts') \<Rightarrow>
               let v = - r in
               Inr (if v > 0 then v + 1 else if v < 0 then v - 1 else v, success', ts'))
        else
          (case TB_probe_wdl n E ts child of
             Inl f \<Rightarrow> Inl f
           | Inr (r, success', ts') \<Rightarrow>
               (case array_at wdl_to_dtz (- r + 2) of
                  Inl f \<Rightarrow> Inl f
                | Inr d \<Rightarrow> Inr (d, success', ts'))))"

text \<open>
  Lines 618 to 639: the loop that values every root move. \<open>Return\<close> is the exit with
  result 0 after a failed probe.
\<close>

function root_probe_moves ::
  "nat \<Rightarrow> env \<Rightarrow> tbstate \<Rightarrow> Pos \<Rightarrow> int \<Rightarrow> ExtMove list \<Rightarrow> nat \<Rightarrow> nat \<Rightarrow> int
     \<Rightarrow> fault + (ExtMove list \<times> tbstate, ExtMove list \<times> int \<times> tbstate) ctl"
where
  "root_probe_moves n E ts pos dtz rm i num success =
     (if i < num then
        (if length rm \<le> i then Inl OutOfBounds
         else
           case root_child_value n E ts pos dtz success (move (rm ! i)) of
             Inl f \<Rightarrow> Inl f
           | Inr (v, success', ts') \<Rightarrow>
               if success' = 0 then Inr (Return (rm, ts'))
               else root_probe_moves n E ts' pos dtz (rm[i := (rm ! i)\<lparr>mvalue := v\<rparr>]) (Suc i) num success')
      else Inr (Next (rm, success, ts)))"
  by pat_completeness auto
termination
  by (relation "measure (\<lambda>(n, E, ts, pos, dtz, rm, i, num, success). num - i)") auto

declare root_probe_moves.simps [simp del]

text \<open>
  The loops that keep moves (lines 684 to 688, 700 to 702, 705 to 707 and 743 to 745):
  the move of entry \<open>i\<close> is copied to entry \<open>j\<close> when the value of entry \<open>i\<close> passes
  the test.
\<close>

function keep_moves :: "(int \<Rightarrow> bool) \<Rightarrow> ExtMove list \<Rightarrow> nat \<Rightarrow> nat \<Rightarrow> nat \<Rightarrow> fault + (ExtMove list \<times> nat)" where
  "keep_moves P rm i j num =
     (if i < num then
        (if length rm \<le> i \<or> length rm \<le> j then Inl OutOfBounds
         else if P (mvalue (rm ! i))
           then keep_moves P (rm[j := (rm ! j)\<lparr>move := move (rm ! i)\<rparr>]) (Suc i) (Suc j) num
         else keep_moves P rm (Suc i) j num)
      else Inr (rm, j))"
  by pat_completeness auto
termination
  by (relation "measure (\<lambda>(P, rm, i, j, num). num - i)") auto

declare keep_moves.simps [simp del]

text \<open>Lines 666 to 671: the smallest positive value, starting from \<^verbatim>\<open>0xffff\<close>.\<close>

function best_win :: "ExtMove list \<Rightarrow> nat \<Rightarrow> nat \<Rightarrow> int \<Rightarrow> fault + int" where
  "best_win rm i num best =
     (if i < num then
        (if length rm \<le> i then Inl OutOfBounds
         else
           let v = mvalue (rm ! i) in
           if v > 0 \<and> v < best then best_win rm (Suc i) num v
           else best_win rm (Suc i) num best)
      else Inr best)"
  by pat_completeness auto
termination
  by (relation "measure (\<lambda>(rm, i, num, best). num - i)") auto

declare best_win.simps [simp del]

text \<open>Lines 690 to 693 and 738 to 739: the largest value, starting from \<open>best\<close>.\<close>

function best_max :: "ExtMove list \<Rightarrow> nat \<Rightarrow> nat \<Rightarrow> int \<Rightarrow> fault + int" where
  "best_max rm i num best =
     (if i < num then
        (if length rm \<le> i then Inl OutOfBounds
         else if best < mvalue (rm ! i) then best_max rm (Suc i) num (mvalue (rm ! i))
         else best_max rm (Suc i) num best)
      else Inr best)"
  by pat_completeness auto
termination
  by (relation "measure (\<lambda>(rm, i, num, best). num - i)") auto

declare best_max.simps [simp del]

text \<open>
  The value of a 32-bit \<^verbatim>\<open>int\<close> after an operation whose exact result is \<open>x\<close>: the
  result wraps around at \<open>2 ^ 31\<close>.
\<close>

definition int32 :: "int \<Rightarrow> int" where
  "int32 x = (x + 2 ^ 31) mod 2 ^ 32 - 2 ^ 31"

text \<open>
  Lines 646 to 661: the score reported for the root. \<open>dtz\<close> is what \<^verbatim>\<open>TB_probe_dtz\<close>
  returned for the root and can be \<^verbatim>\<open>INT32_MAX\<close>, so the sums of lines 648 and 650 and
  the products of lines 659 and 661 are 32-bit results.
\<close>

definition root_wdl :: "int \<Rightarrow> int \<Rightarrow> int" where
  "root_wdl dtz cnt50 =
     (if dtz > 0 then (if int32 (dtz + cnt50) \<le> 100 then 2 else 1)
      else if dtz < 0 then (if int32 (int32 (- dtz) + cnt50) \<le> 100 then - 2 else - 1)
      else 0)"

definition root_score :: "env \<Rightarrow> int \<Rightarrow> int \<Rightarrow> Value" where
  "root_score E dtz cnt50 =
     (let wdl = root_wdl dtz cnt50 in
      if wdl = 1 \<and> dtz \<le> 100
        then c_div (int32 (int32 (int32 (200 - dtz) - cnt50) * PawnValueEg E)) 200
      else if wdl = - 1 \<and> dtz \<ge> - 100
        then int32 (- c_div (int32 (int32 (int32 (200 + dtz) - cnt50) * PawnValueEg E)) 200)
      else wdl_to_Value E ! nat (wdl + 2))"

text \<open>
  \<^verbatim>\<open>TB_root_probe\<close>. The result is the return value, the array \<^verbatim>\<open>rm\<close>,
  \<^verbatim>\<open>*num_moves\<close>, \<^verbatim>\<open>*score\<close> and the registry on return.
\<close>

definition TB_root_probe ::
  "nat \<Rightarrow> env \<Rightarrow> tbstate \<Rightarrow> Pos \<Rightarrow> ExtMove list \<Rightarrow> nat \<Rightarrow> Value
     \<Rightarrow> fault + (int \<times> ExtMove list \<times> nat \<times> Value \<times> tbstate)" where
  "TB_root_probe n E ts pos rm num_moves score =
     (case TB_probe_dtz n E ts pos of
        Inl f \<Rightarrow> Inl f
      | Inr (dtz, success, ts1) \<Rightarrow>
          if success = 0 then Inr (0, rm, num_moves, score, ts1)
          else
            (case root_probe_moves n E ts1 pos dtz rm 0 num_moves success of
               Inl f \<Rightarrow> Inl f
             | Inr (Return (rm1, ts2)) \<Rightarrow> Inr (0, rm1, num_moves, score, ts2)
             | Inr (Next (rm1, success1, ts2)) \<Rightarrow>
                 let cnt50 = pos_rule50_count pos;
                     score1 = root_score E dtz cnt50
                 in
                   if dtz > 0 then
                     (case best_win rm1 0 num_moves 0xffff of
                        Inl f \<Rightarrow> Inl f
                      | Inr best \<Rightarrow>
                          (case has_repeated pos of
                             Inl f \<Rightarrow> Inl f
                           | Inr rep \<Rightarrow>
                               let max_dtz_allowed =
                                     (if \<not> rep \<and> best + cnt50 \<le> 99 then 99 - cnt50 else best)
                               in
                                 (case keep_moves (\<lambda>v. v > 0 \<and> v \<le> max_dtz_allowed) rm1 0 0 num_moves of
                                    Inl f \<Rightarrow> Inl f
                                  | Inr (rm2, j) \<Rightarrow> Inr (1, rm2, j, score1, ts2))))
                   else if dtz < 0 then
                     (case best_max rm1 0 num_moves 0 of
                        Inl f \<Rightarrow> Inl f
                      | Inr best \<Rightarrow>
                          if - best * 2 + cnt50 < 100 then Inr (1, rm1, num_moves, score1, ts2)
                          else
                            (case keep_moves (\<lambda>v. v = best) rm1 0 0 num_moves of
                               Inl f \<Rightarrow> Inl f
                             | Inr (rm2, j) \<Rightarrow> Inr (1, rm2, j, score1, ts2)))
                   else
                     (case keep_moves (\<lambda>v. v = 0) rm1 0 0 num_moves of
                        Inl f \<Rightarrow> Inl f
                      | Inr (rm2, j) \<Rightarrow> Inr (1, rm2, j, score1, ts2))))"

text \<open>
  Lines 732 to 740 of \<^verbatim>\<open>TB_root_probe_wdl\<close>: every root move gets the negated WDL
  value of its child, and \<open>best\<close> follows the largest one.
\<close>

function root_wdl_moves ::
  "nat \<Rightarrow> env \<Rightarrow> tbstate \<Rightarrow> Pos \<Rightarrow> ExtMove list \<Rightarrow> nat \<Rightarrow> nat \<Rightarrow> int
     \<Rightarrow> fault + (ExtMove list \<times> tbstate, ExtMove list \<times> int \<times> tbstate) ctl"
where
  "root_wdl_moves n E ts pos rm i num best =
     (if i < num then
        (if length rm \<le> i then Inl OutOfBounds
         else
           case TB_probe_wdl n E ts (do_move E pos (move (rm ! i)) (gives_check E pos (move (rm ! i)))) of
             Inl f \<Rightarrow> Inl f
           | Inr (r, success', ts') \<Rightarrow>
               let v = - r in
               if success' = 0 then Inr (Return (rm, ts'))
               else root_wdl_moves n E ts' pos (rm[i := (rm ! i)\<lparr>mvalue := v\<rparr>]) (Suc i) num
                      (if v > best then v else best))
      else Inr (Next (rm, best, ts)))"
  by pat_completeness auto
termination
  by (relation "measure (\<lambda>(n, E, ts, pos, rm, i, num, best). num - i)") auto

declare root_wdl_moves.simps [simp del]

definition TB_root_probe_wdl ::
  "nat \<Rightarrow> env \<Rightarrow> tbstate \<Rightarrow> Pos \<Rightarrow> ExtMove list \<Rightarrow> nat \<Rightarrow> Value
     \<Rightarrow> fault + (int \<times> ExtMove list \<times> nat \<times> Value \<times> tbstate)" where
  "TB_root_probe_wdl n E ts pos rm num_moves score =
     (case TB_probe_wdl n E ts pos of
        Inl f \<Rightarrow> Inl f
      | Inr (wdl, success, ts1) \<Rightarrow>
          if success = 0 then Inr (0, rm, num_moves, score, ts1)
          else
            (case array_at (wdl_to_Value E) (wdl + 2) of
               Inl f \<Rightarrow> Inl f
             | Inr score1 \<Rightarrow>
                 (case root_wdl_moves n E ts1 pos rm 0 num_moves (- 2) of
                    Inl f \<Rightarrow> Inl f
                  | Inr (Return (rm1, ts2)) \<Rightarrow> Inr (0, rm1, num_moves, score1, ts2)
                  | Inr (Next (rm1, best, ts2)) \<Rightarrow>
                      (case keep_moves (\<lambda>v. v = best) rm1 0 0 num_moves of
                         Inl f \<Rightarrow> Inl f
                       | Inr (rm2, j) \<Rightarrow> Inr (1, rm2, j, score1, ts2)))))"

subsection \<open>Postconditions\<close>

text \<open>
  What \<^verbatim>\<open>probe_ab\<close> leaves: \<^verbatim>\<open>*success\<close> is unchanged or 0, a successful search
  returns at least \<open>alpha\<close>, and the list of resident DTZ tables is not touched.
\<close>

definition ab_post :: "tbstate \<Rightarrow> int \<Rightarrow> int \<Rightarrow> int \<times> int \<times> tbstate \<Rightarrow> bool" where
  "ab_post ts a s r =
     (case r of (v, s', ts') \<Rightarrow>
        (s' = s \<or> s' = 0) \<and> (s' \<noteq> 0 \<longrightarrow> a \<le> v) \<and> DTZ_table ts' = DTZ_table ts)"

text \<open>
  What the capture loop of \<^verbatim>\<open>TB_probe_wdl\<close> leaves: it returns from the probe only
  with a failure or with the winning capture, and it falls through with \<open>best_cap\<close> and
  \<open>best_ep\<close> raised to at most 1.
\<close>

definition wdl_loop_post ::
  "tbstate \<Rightarrow> int \<Rightarrow> int \<Rightarrow> int \<Rightarrow> (int \<times> int \<times> tbstate, int \<times> int \<times> int \<times> tbstate) ctl \<Rightarrow> bool" where
  "wdl_loop_post ts bc be s c =
     (case c of
        Return (v, s', ts') \<Rightarrow> ((v = 0 \<and> s' = 0) \<or> (v = 2 \<and> s' = 2)) \<and> DTZ_table ts' = DTZ_table ts
      | Next (bc', be', s', ts') \<Rightarrow>
          bc \<le> bc' \<and> bc' \<le> 1 \<and> be \<le> be' \<and> be' \<le> 1 \<and> s' = s \<and> DTZ_table ts' = DTZ_table ts)"

text \<open>
  What \<^verbatim>\<open>TB_probe_wdl\<close> leaves: \<^verbatim>\<open>*success\<close> in \<open>{0, 1, 2}\<close>, the value 0 on failure, at
  least \<open>- 2\<close> always and at most 2 with a best capture.
\<close>

definition wdl_post :: "tbstate \<Rightarrow> int \<times> int \<times> tbstate \<Rightarrow> bool" where
  "wdl_post ts r =
     (case r of (w, s, ts') \<Rightarrow>
        (s = 0 \<or> s = 1 \<or> s = 2) \<and> - 2 \<le> w \<and> (s = 0 \<longrightarrow> w = 0) \<and> (s = 2 \<longrightarrow> w \<le> 2)
        \<and> DTZ_table ts' = DTZ_table ts)"

text \<open>
  The moves of the entries \<open>i\<close> to \<open>num - 1\<close> whose values pass the test \<open>P\<close>, in their
  order.
\<close>

definition kept :: "(int \<Rightarrow> bool) \<Rightarrow> ExtMove list \<Rightarrow> nat \<Rightarrow> nat \<Rightarrow> Move list" where
  "kept P rm i num = map move (filter (\<lambda>e. P (mvalue e)) (drop i (take num rm)))"

text \<open>
  What the loop over the root moves leaves: the moves are the ones handed over, and only
  the values of the entries \<open>i\<close> to \<open>num - 1\<close> have been written.
\<close>

definition root_loop_post ::
  "ExtMove list \<Rightarrow> nat \<Rightarrow> nat \<Rightarrow> (ExtMove list \<times> tbstate, ExtMove list \<times> int \<times> tbstate) ctl \<Rightarrow> bool" where
  "root_loop_post rm i num c =
     (case c of
        Return (rm1, ts') \<Rightarrow> length rm1 = length rm \<and> map move rm1 = map move rm
      | Next (rm1, s', ts') \<Rightarrow>
          length rm1 = length rm \<and> map move rm1 = map move rm \<and>
          (\<forall>k. k < i \<or> num \<le> k \<longrightarrow> rm1 ! k = rm ! k) \<and> (i < num \<longrightarrow> num \<le> length rm))"

text \<open>
  The moves the last loop of \<^verbatim>\<open>TB_probe_dtz\<close> passes over (line 555): captures, pawn
  moves and illegal moves.
\<close>

definition dtz_skipped :: "env \<Rightarrow> Pos \<Rightarrow> Move \<Rightarrow> bool" where
  "dtz_skipped E pos m =
     (is_capture E pos m \<or> type_of_p E (moved_piece E pos m) = PAWN \<or> \<not> is_legal E pos m)"

text \<open>
  The values of \<^verbatim>\<open>*success\<close> on exit from the DTZ probe.
\<close>

definition success_ok :: "int \<Rightarrow> bool" where
  "success_ok s = (s = - 1 \<or> s = 0 \<or> s = 1 \<or> s = 2)"

text \<open>
  Some move that the last loop of \<^verbatim>\<open>TB_probe_dtz\<close> probes leads to a position whose
  own DTZ probe can come back with \<^verbatim>\<open>*success = - 1\<close>.
\<close>

definition child_wrong_side :: "nat \<Rightarrow> env \<Rightarrow> Pos \<Rightarrow> Move list \<Rightarrow> bool" where
  "child_wrong_side n E pos ms =
     (\<exists>m \<in> set ms. \<not> dtz_skipped E pos m \<and>
        (\<exists>ts1 v1 ts2. TB_probe_dtz n E ts1 (do_move E pos m (gives_check E pos m)) = Inr (v1, - 1, ts2)))"

text \<open>
  The decoder of the WDL tables returns bytes from 0 to 4 only, the five WDL values.
\<close>

definition wdl_bytes_ok :: "env \<Rightarrow> bool" where
  "wdl_bytes_ok E =
     (\<forall>e bside mirror cmirror pos.
        wdl_piece_value E e bside cmirror pos \<le> 4 \<and> wdl_pawn_value E e bside mirror cmirror pos \<le> 4)"

text \<open>
  The position after a root move.
\<close>

definition root_child :: "env \<Rightarrow> Pos \<Rightarrow> Move \<Rightarrow> Pos" where
  "root_child E pos m = do_move E pos m (gives_check E pos m)"

text \<open>
  \<open>v\<close> is the negated value of a successful WDL probe of the position after the root
  move \<open>m\<close>.
\<close>

definition is_child_wdl :: "nat \<Rightarrow> env \<Rightarrow> Pos \<Rightarrow> Move \<Rightarrow> int \<Rightarrow> bool" where
  "is_child_wdl n E pos m v =
     (\<exists>ts1 r s ts2. TB_probe_wdl n E ts1 (root_child E pos m) = Inr (r, s, ts2) \<and> s \<noteq> 0 \<and> v = - r)"

text \<open>
  What the loop of \<^verbatim>\<open>TB_root_probe_wdl\<close> leaves: the moves are the ones handed over,
  the entries \<open>i\<close> to \<open>num - 1\<close> carry the negated WDL values of their children, and
  \<open>best\<close> is the start value or the largest of them.
\<close>

definition root_wdl_post ::
  "nat \<Rightarrow> env \<Rightarrow> Pos \<Rightarrow> ExtMove list \<Rightarrow> nat \<Rightarrow> nat \<Rightarrow> int
     \<Rightarrow> (ExtMove list \<times> tbstate, ExtMove list \<times> int \<times> tbstate) ctl \<Rightarrow> bool" where
  "root_wdl_post n E pos rm i num best c =
     (case c of
        Return (rm1, ts') \<Rightarrow> length rm1 = length rm \<and> map move rm1 = map move rm
      | Next (rm1, best', ts') \<Rightarrow>
          length rm1 = length rm \<and> map move rm1 = map move rm \<and>
          (\<forall>k. k < i \<or> num \<le> k \<longrightarrow> rm1 ! k = rm ! k) \<and> (i < num \<longrightarrow> num \<le> length rm) \<and>
          best \<le> best' \<and> (best' = best \<or> (\<exists>k. i \<le> k \<and> k < num \<and> best' = mvalue (rm1 ! k))) \<and>
          (\<forall>k. i \<le> k \<and> k < num \<longrightarrow>
             mvalue (rm1 ! k) \<le> best' \<and> is_child_wdl n E pos (move (rm ! k)) (mvalue (rm1 ! k))))"

subsection \<open>The colour mirror\<close>








definition dtz_loaded :: "env \<Rightarrow> Pos \<Rightarrow> bool \<Rightarrow> DTZTableEntry" where
  "dtz_loaded E pos mirror =
     load_dtz_table E (prt_str E pos mirror) (calc_key E pos mirror) (calc_key E pos (\<not> mirror))"


section \<open>Concrete positions\<close>

text \<open>
  A small engine for evaluating the routines on actual positions: a book lists, for
  each position, the moves its generators return, the legal ones among them and the
  position each move leads to. Moves are encoded as in Cfish (the target square in bits
  0 to 5, the origin in bits 6 to 11, the move type in bits 14 and 15), squares count
  from a1 = 0 to h8 = 63, and pieces are 1 to 6 for White's pawn, knight, bishop, rook,
  queen and king, and 9 to 14 for Black's.
\<close>

definition board_of :: "(Square \<times> 8 word) list \<Rightarrow> Square \<Rightarrow> 8 word" where
  "board_of ps s = (case map_of ps s of None \<Rightarrow> 0 | Some p \<Rightarrow> p)"

definition bb_of :: "(Square \<times> 8 word) list \<Rightarrow> (8 word \<Rightarrow> bool) \<Rightarrow> Bitboard" where
  "bb_of ps P = fold (\<lambda>(s, p) bb. if P p then bb OR push_bit s 1 else bb) ps 0"

definition mk_stack :: "Key \<Rightarrow> Key \<Rightarrow> 8 word \<Rightarrow> 8 word \<Rightarrow> Bitboard \<Rightarrow> Stack" where
  "mk_stack zkey mkey r50 pfn chk =
     \<lparr>materialKey = mkey, pliesFromNull = pfn, rule50 = r50, key = zkey, checkersBB = chk,
      blockersForKing = (\<lambda>c. 0), checkSquares = (\<lambda>t. 0)\<rparr>"

definition mk_pos :: "(Square \<times> 8 word) list \<Rightarrow> 8 word \<Rightarrow> Stack \<Rightarrow> Stack list \<Rightarrow> Pos" where
  "mk_pos ps stm s below =
     \<lparr>board = board_of ps,
      byTypeBB = (\<lambda>t. if t = 0 then bb_of ps (\<lambda>p. True) else bb_of ps (\<lambda>p. unat (p AND 7) = t)),
      byColorBB = (\<lambda>c. bb_of ps (\<lambda>p. unat (drop_bit 3 p) = c)),
      sideToMove = stm, st = s, prev = below\<rparr>"

record node =
  n_pos :: Pos
  n_captures :: "Move list"
  n_evasions :: "Move list"
  n_quiets :: "Move list"
  n_legal :: "Move list"
  n_next :: "(Move \<times> Key) list"

fun find_node :: "node list \<Rightarrow> Key \<Rightarrow> node option" where
  "find_node [] k = None"
| "find_node (nd # nds) k = (if key (st (n_pos nd)) = k then Some nd else find_node nds k)"

definition node_of :: "node list \<Rightarrow> Pos \<Rightarrow> node option" where
  "node_of book pos = find_node book (key (st pos))"

definition book_moves :: "node list \<Rightarrow> (node \<Rightarrow> Move list) \<Rightarrow> Pos \<Rightarrow> Move list" where
  "book_moves book sel pos = (case node_of book pos of None \<Rightarrow> [] | Some nd \<Rightarrow> sel nd)"

definition book_do_move :: "node list \<Rightarrow> Pos \<Rightarrow> Move \<Rightarrow> bool \<Rightarrow> Pos" where
  "book_do_move book pos m gc =
     (case node_of book pos of
        None \<Rightarrow> pos
      | Some nd \<Rightarrow>
          (case map_of (n_next nd) m of
             None \<Rightarrow> pos
           | Some k \<Rightarrow> (case find_node book k of None \<Rightarrow> pos | Some nd' \<Rightarrow> n_pos nd')))"

definition cfish_type_of_m :: "Move \<Rightarrow> MoveType" where
  "cfish_type_of_m m =
     (if m div 2 ^ 14 = 0 then NORMAL else if m div 2 ^ 14 = 1 then PROMOTION
      else if m div 2 ^ 14 = 2 then ENPASSANT else CASTLING)"

definition byte_of :: "(Key \<times> 8 word) list \<Rightarrow> 8 word \<Rightarrow> Pos \<Rightarrow> 8 word" where
  "byte_of bytes d pos = (case map_of bytes (key (st pos)) of None \<Rightarrow> d | Some b \<Rightarrow> b)"

text \<open>
  The engine of a book. The stored bytes of the WDL and DTZ tables are given per
  position; a WDL byte \<open>b\<close> stands for the value \<open>b - 2\<close>.
\<close>

definition book_env :: "node list \<Rightarrow> (Key \<times> 8 word) list \<Rightarrow> (Key \<times> 8 word) list \<Rightarrow> env" where
  "book_env book wdl_bytes dtz_bytes =
     \<lparr>type_of_m = cfish_type_of_m,
      from_sq = (\<lambda>m. nat ((m div 2 ^ 6) mod 2 ^ 6)),
      to_sq = (\<lambda>m. nat (m mod 2 ^ 6)),
      type_of_p = (\<lambda>p. unat (p AND 7)),
      sq_bb = (\<lambda>s. push_bit s 1),
      popcount = (\<lambda>b. length (filter id (map (bit b) [0 ..< 64]))),
      generate_captures = book_moves book n_captures,
      generate_evasions = book_moves book n_evasions,
      generate_non_evasions = book_moves book (\<lambda>nd. n_captures nd @ n_quiets nd),
      generate_quiets = book_moves book n_quiets,
      generate_legal = book_moves book n_legal,
      is_legal = (\<lambda>pos m. m \<in> set (book_moves book n_legal pos)),
      gives_check_special = (\<lambda>pos m. False),
      do_move = book_do_move book,
      mat_key = (\<lambda>i. 0),
      pchr = (\<lambda>i. ''KQRBNP'' ! i),
      TBHASHBITS = 10,
      init_table_wdl = (\<lambda>e str. None),
      wdl_piece_value = (\<lambda>e bside cmirror. byte_of wdl_bytes 2),
      wdl_pawn_value = (\<lambda>e bside mirror cmirror. byte_of wdl_bytes 2),
      load_dtz_table = (\<lambda>str k1 k2. \<lparr>key1 = k1, key2 = k2, entry = None\<rparr>),
      dtz_pawn_file = (\<lambda>e mirror cmirror pos. 0),
      dtz_piece_value = (\<lambda>e cmirror. byte_of dtz_bytes 0),
      dtz_pawn_value = (\<lambda>e f mirror cmirror. byte_of dtz_bytes 0),
      wdl_to_map = [1, 3, 0, 2, 0],
      pa_flags = [8, 0, 0, 0, 4],
      VALUE_MATE = 32000, VALUE_DRAW = 0, MAX_PLY = 128, PawnValueEg = 258\<rparr>"

definition mv :: "Square \<Rightarrow> Square \<Rightarrow> Move" where
  "mv a b = int a * 2 ^ 6 + int b"

definition ep_mv :: "Square \<Rightarrow> Square \<Rightarrow> Move" where
  "ep_mv a b = int a * 2 ^ 6 + int b + 2 * 2 ^ 14"

subsection \<open>The registry\<close>

text \<open>
  Material keys: 2001 for KRvK, 2003 for KvKR (the mirror of KRvK, served by the same
  entry), 3001 for KRvKR and 2005 for KRvKN, all in bucket 0; in bucket 1 (the keys start at \<open>2 ^ 54\<close>)
  KPvKBP, KPvKB, KPvKQP and KPvKQ. All WDL entries are initialised; the DTZ table of
  KRvK is resident and stored for White to move.
\<close>

definition KPvKBP :: Key where "KPvKBP = 18014398509481985"
definition KPvKB :: Key where "KPvKB = 18014398509481986"
definition KPvKQP :: Key where "KPvKQP = 18014398509481987"
definition KPvKQ :: Key where "KPvKQ = 18014398509481988"

definition wdl_entries :: "nat \<Rightarrow> TBEntry" where
  "wdl_entries p =
     (if p = 0 then \<lparr>ekey = KPvKBP, ready = True, symmetric = False, has_pawns = True, payload = 0\<rparr>
      else if p = 1 then \<lparr>ekey = KPvKB, ready = True, symmetric = False, has_pawns = True, payload = 1\<rparr>
      else if p = 2 then \<lparr>ekey = 2001, ready = True, symmetric = False, has_pawns = False, payload = 2\<rparr>
      else if p = 3 then \<lparr>ekey = 3001, ready = True, symmetric = True, has_pawns = False, payload = 3\<rparr>
      else if p = 4 then \<lparr>ekey = KPvKQP, ready = True, symmetric = False, has_pawns = True, payload = 4\<rparr>
      else if p = 5 then \<lparr>ekey = KPvKQ, ready = True, symmetric = False, has_pawns = True, payload = 5\<rparr>
      else \<lparr>ekey = 2005, ready = True, symmetric = False, has_pawns = False, payload = 6\<rparr>)"

definition pawn_bucket :: "TBHashEntry list" where
  "pawn_bucket =
     [\<lparr>hkey = KPvKBP, hptr = 0\<rparr>, \<lparr>hkey = KPvKB, hptr = 1\<rparr>, \<lparr>hkey = KPvKQP, hptr = 4\<rparr>,
      \<lparr>hkey = KPvKQ, hptr = 5\<rparr>]"

definition krk_dtz :: DTZEntry where
  "krk_dtz =
     \<lparr>dkey = 2001, dsymmetric = False, dhas_pawns = False, piece_flags = 0,
      pawn_flags = (\<lambda>f. 0), piece_map_idx = (\<lambda>i. 0), pawn_map_idx = (\<lambda>f i. 0),
      dmap = (\<lambda>i. 0), dpayload = 0\<rparr>"

definition tables :: tbstate where
  "tables =
     \<lparr>TB_hash = (\<lambda>b. if b = 0
                      then [\<lparr>hkey = 2001, hptr = 2\<rparr>, \<lparr>hkey = 2003, hptr = 2\<rparr>, \<lparr>hkey = 3001, hptr = 3\<rparr>,
                            \<lparr>hkey = 2005, hptr = 6\<rparr>]
                      else if b = 1 then pawn_bucket else []),
      tb_entries = wdl_entries,
      DTZ_table = [\<lparr>key1 = 2001, key2 = 2003, entry = Some krk_dtz\<rparr>]\<rparr>"

text \<open>The same registry without the KRvKR table.\<close>

definition tables_no_krkr :: tbstate where
  "tables_no_krkr =
     \<lparr>TB_hash = (\<lambda>b. if b = 0
                      then [\<lparr>hkey = 2001, hptr = 2\<rparr>, \<lparr>hkey = 2003, hptr = 2\<rparr>, \<lparr>hkey = 0, hptr = 3\<rparr>,
                            \<lparr>hkey = 2005, hptr = 6\<rparr>]
                      else if b = 1 then pawn_bucket else []),
      tb_entries = wdl_entries,
      DTZ_table = [\<lparr>key1 = 2001, key2 = 2003, entry = Some krk_dtz\<rparr>]\<rparr>"

subsection \<open>En passant as the only move\<close>

text \<open>
  \<open>ep_only\<close>: White Ka1, Pe5; Black Kc2, Be6, Pf5 (just played from f7); White to move.
  The king has no square, the pawn is blocked, and the only legal move is the capture
  e5xf6 en passant, which leads to \<open>ep_only_after\<close>: White Ka1, Pf6; Black Kc2, Be6, a
  draw. Without the en-passant right the position is stalemate, stored as a draw.

  \<open>ep_best\<close> is the same with the black king on c3: the white king can go to b1, the
  table stores a loss, and the capture en passant to \<open>ep_best_after\<close> draws.

  \<open>ep_forced\<close> is \<open>ep_only\<close> with a black queen in place of the bishop: the capture
  en passant is again the only legal move, and it loses (\<open>ep_forced_after\<close>).
\<close>

definition ep_only :: Pos where
  "ep_only = mk_pos [(0, 6), (36, 1), (10, 14), (44, 11), (37, 9)] WHITE (mk_stack 101 KPvKBP 0 1 0) []"

definition ep_only_after :: Pos where
  "ep_only_after = mk_pos [(0, 6), (45, 1), (10, 14), (44, 11)] BLACK (mk_stack 102 KPvKB 0 2 0) []"

definition ep_best :: Pos where
  "ep_best = mk_pos [(0, 6), (36, 1), (18, 14), (44, 11), (37, 9)] WHITE (mk_stack 103 KPvKBP 0 1 0) []"

definition ep_best_after :: Pos where
  "ep_best_after = mk_pos [(0, 6), (45, 1), (18, 14), (44, 11)] BLACK (mk_stack 104 KPvKB 0 2 0) []"

definition ep_forced :: Pos where
  "ep_forced = mk_pos [(0, 6), (36, 1), (10, 14), (44, 13), (37, 9)] WHITE (mk_stack 105 KPvKQP 0 1 0) []"

definition ep_forced_after :: Pos where
  "ep_forced_after = mk_pos [(0, 6), (45, 1), (10, 14), (44, 13)] BLACK (mk_stack 106 KPvKQ 0 2 0) []"

subsection \<open>Rook endings\<close>

text \<open>
  \<open>rook_win\<close>: White Kb6, Rh1; Black Ka8, Rh8; White to move. Rh1xh8 is mate
  (\<open>rook_mate\<close>: White Kb6, Rh8; Black Ka8, in check, with the king moves to a7 and b7
  generated and none legal). After Rh1-g1 (\<open>rook_quiet\<close>) nothing can be captured.
\<close>

definition rook_win :: Pos where
  "rook_win = mk_pos [(41, 6), (7, 4), (56, 14), (63, 12)] WHITE (mk_stack 201 3001 3 3 0) []"

definition rook_mate :: Pos where
  "rook_mate = mk_pos [(41, 6), (63, 4), (56, 14)] BLACK (mk_stack 202 2001 0 4 (push_bit 63 1)) []"

definition rook_quiet :: Pos where
  "rook_quiet = mk_pos [(41, 6), (6, 4), (56, 14), (63, 12)] BLACK (mk_stack 203 3001 4 4 0) []"

text \<open>
  \<open>krkr\<close>: White Kg1, Rb1; Black Kg7, Ra8; White to move, a draw. Rb1-b8 loses the
  rook (\<open>krkr_hang\<close>, then \<open>krkr_lost\<close> after Ra8xb8); Kg1-g2 and Kg1-f2 keep the draw
  (\<open>krkr_g2\<close>, \<open>krkr_f2\<close>).
\<close>

definition krkr :: Pos where
  "krkr = mk_pos [(6, 6), (1, 4), (54, 14), (56, 12)] WHITE (mk_stack 301 3001 2 2 0) []"

definition krkr_hang :: Pos where
  "krkr_hang = mk_pos [(6, 6), (57, 4), (54, 14), (56, 12)] BLACK (mk_stack 302 3001 3 3 0) []"

definition krkr_lost :: Pos where
  "krkr_lost = mk_pos [(6, 6), (54, 14), (57, 12)] WHITE (mk_stack 303 2003 0 4 0) []"

definition krkr_g2 :: Pos where
  "krkr_g2 = mk_pos [(14, 6), (1, 4), (54, 14), (56, 12)] BLACK (mk_stack 304 3001 3 3 0) []"

definition krkr_f2 :: Pos where
  "krkr_f2 = mk_pos [(13, 6), (1, 4), (54, 14), (56, 12)] BLACK (mk_stack 305 3001 3 3 0) []"

text \<open>
  \<open>krk\<close>: White Kb6, Rh1; Black Ka8; White to move with 92 plies on the fifty-move
  counter and five plies of history, all positions different. Rh1-h8 mates
  (\<open>krk_mate\<close>). After Rh1-h7 (\<open>krk_h7\<close>) Black has only Ka8-b8, reaching \<open>krk_h7_b8\<close>;
  after Kb6-c6 (\<open>krk_c6\<close>) Black plays Ka8-a7, reaching \<open>krk_c6_a7\<close>.
\<close>

definition krk_history :: "Stack list" where
  "krk_history =
     [mk_stack 411 2001 91 4 0, mk_stack 412 2001 90 3 0, mk_stack 413 2001 89 2 0,
      mk_stack 414 2001 88 1 0, mk_stack 415 2001 87 0 0]"

definition krk :: Pos where
  "krk = mk_pos [(41, 6), (7, 4), (56, 14)] WHITE (mk_stack 401 2001 92 5 0) krk_history"

definition krk_mate :: Pos where
  "krk_mate = mk_pos [(41, 6), (63, 4), (56, 14)] BLACK (mk_stack 402 2001 93 6 (push_bit 63 1)) []"

definition krk_h7 :: Pos where
  "krk_h7 = mk_pos [(41, 6), (55, 4), (56, 14)] BLACK (mk_stack 403 2001 93 6 0) []"

definition krk_h7_b8 :: Pos where
  "krk_h7_b8 = mk_pos [(41, 6), (55, 4), (57, 14)] WHITE (mk_stack 404 2001 94 7 0) []"

definition krk_c6 :: Pos where
  "krk_c6 = mk_pos [(42, 6), (7, 4), (56, 14)] BLACK (mk_stack 405 2001 93 6 0) []"

definition krk_c6_a7 :: Pos where
  "krk_c6_a7 = mk_pos [(42, 6), (7, 4), (48, 14)] WHITE (mk_stack 406 2001 94 7 0) []"

text \<open>
  Colour mirrors. \<open>rook_win_mirror\<close> is \<open>rook_win\<close> with the colours swapped, the
  board flipped vertically and the other side to move: White Ka1, Rh1; Black Kb3, Rh8;
  Black to move, and Rh8xh1 mates (\<open>rook_mate_mirror\<close>, the same mirror of
  \<open>rook_mate\<close>: the king moves to a2 and b2 are generated and none is legal; its
  material key is 2003, the mirror key of KRvK); Rh8-g8 leads to \<open>rook_quiet_mirror\<close>. \<open>rook_win_recoloured\<close> has the same men with White to
  move: Rh1xh8 leaves Black, to move in \<open>rook_recoloured_after\<close>, with the bare king
  against king and rook.
\<close>

definition rook_win_mirror :: Pos where
  "rook_win_mirror = mk_pos [(17, 14), (63, 12), (0, 6), (7, 4)] BLACK (mk_stack 211 3001 3 3 0) []"

definition rook_mate_mirror :: Pos where
  "rook_mate_mirror = mk_pos [(17, 14), (7, 12), (0, 6)] WHITE (mk_stack 212 2003 0 4 (push_bit 7 1)) []"

definition rook_quiet_mirror :: Pos where
  "rook_quiet_mirror = mk_pos [(17, 14), (62, 12), (0, 6), (7, 4)] WHITE (mk_stack 213 3001 4 4 0) []"

definition rook_win_recoloured :: Pos where
  "rook_win_recoloured = mk_pos [(0, 6), (7, 4), (17, 14), (63, 12)] WHITE (mk_stack 221 3001 3 3 0) []"

definition rook_recoloured_after :: Pos where
  "rook_recoloured_after = mk_pos [(0, 6), (63, 4), (17, 14)] BLACK (mk_stack 222 2001 0 4 0) []"

text \<open>
  \<open>rook_choice\<close> is \<open>rook_win\<close> with a black knight on g1: White Kb6, Rh1; Black Ka8,
  Rh8, Ng1; White to move. The captures are generated in the order Rh1xg1, Rh1xh8.
  Rh1xg1 leads to king and rook against king and rook (\<open>rook_choice_g1\<close>), and
  Rh1xh8 mates (\<open>rook_choice_mate\<close>: White Kb6, Rh8; Black Ka8, Ng1).
\<close>

definition rook_choice :: Pos where
  "rook_choice = mk_pos [(41, 6), (7, 4), (56, 14), (63, 12), (6, 10)] WHITE (mk_stack 231 3005 3 3 0) []"

definition rook_choice_g1 :: Pos where
  "rook_choice_g1 = mk_pos [(41, 6), (6, 4), (56, 14), (63, 12)] BLACK (mk_stack 232 3001 0 4 0) []"

definition rook_choice_mate :: Pos where
  "rook_choice_mate =
     mk_pos [(41, 6), (63, 4), (56, 14), (6, 10)] BLACK (mk_stack 233 2005 0 4 (push_bit 63 1)) []"

definition leaf :: "Pos \<Rightarrow> node" where
  "leaf pos = \<lparr>n_pos = pos, n_captures = [], n_evasions = [], n_quiets = [], n_legal = [], n_next = []\<rparr>"

definition book :: "node list" where
  "book =
     [\<lparr>n_pos = ep_only, n_captures = [ep_mv 36 45], n_evasions = [],
       n_quiets = [mv 0 1, mv 0 8, mv 0 9], n_legal = [ep_mv 36 45], n_next = [(ep_mv 36 45, 102)]\<rparr>,
      leaf ep_only_after,
      \<lparr>n_pos = ep_best, n_captures = [ep_mv 36 45], n_evasions = [],
       n_quiets = [mv 0 1, mv 0 8, mv 0 9], n_legal = [ep_mv 36 45, mv 0 1], n_next = [(ep_mv 36 45, 104)]\<rparr>,
      leaf ep_best_after,
      \<lparr>n_pos = ep_forced, n_captures = [ep_mv 36 45], n_evasions = [],
       n_quiets = [mv 0 1, mv 0 8, mv 0 9], n_legal = [ep_mv 36 45], n_next = [(ep_mv 36 45, 106)]\<rparr>,
      leaf ep_forced_after,
      \<lparr>n_pos = rook_win, n_captures = [mv 7 63], n_evasions = [], n_quiets = [mv 7 6],
       n_legal = [mv 7 63, mv 7 6], n_next = [(mv 7 63, 202), (mv 7 6, 203)]\<rparr>,
      \<lparr>n_pos = rook_mate, n_captures = [], n_evasions = [mv 56 48, mv 56 49], n_quiets = [],
       n_legal = [], n_next = []\<rparr>,
      leaf rook_quiet,
      \<lparr>n_pos = krkr, n_captures = [], n_evasions = [], n_quiets = [mv 1 57, mv 6 14, mv 6 13],
       n_legal = [mv 1 57, mv 6 14, mv 6 13], n_next = [(mv 1 57, 302), (mv 6 14, 304), (mv 6 13, 305)]\<rparr>,
      \<lparr>n_pos = krkr_hang, n_captures = [mv 56 57], n_evasions = [], n_quiets = [],
       n_legal = [mv 56 57], n_next = [(mv 56 57, 303)]\<rparr>,
      leaf krkr_lost, leaf krkr_g2, leaf krkr_f2,
      \<lparr>n_pos = krk, n_captures = [], n_evasions = [], n_quiets = [mv 7 55, mv 41 42, mv 7 63],
       n_legal = [mv 7 55, mv 41 42, mv 7 63], n_next = [(mv 7 55, 403), (mv 41 42, 405), (mv 7 63, 402)]\<rparr>,
      \<lparr>n_pos = krk_mate, n_captures = [], n_evasions = [mv 56 48, mv 56 49], n_quiets = [],
       n_legal = [], n_next = []\<rparr>,
      \<lparr>n_pos = krk_h7, n_captures = [], n_evasions = [], n_quiets = [mv 56 57, mv 56 48, mv 56 49],
       n_legal = [mv 56 57], n_next = [(mv 56 57, 404)]\<rparr>,
      leaf krk_h7_b8,
      \<lparr>n_pos = krk_c6, n_captures = [], n_evasions = [], n_quiets = [mv 56 48, mv 56 57, mv 56 49],
       n_legal = [mv 56 48], n_next = [(mv 56 48, 406)]\<rparr>,
      leaf krk_c6_a7,
      \<lparr>n_pos = rook_win_mirror, n_captures = [mv 63 7], n_evasions = [], n_quiets = [mv 63 62],
       n_legal = [mv 63 7, mv 63 62], n_next = [(mv 63 7, 212), (mv 63 62, 213)]\<rparr>,
      \<lparr>n_pos = rook_mate_mirror, n_captures = [], n_evasions = [mv 0 8, mv 0 9], n_quiets = [],
       n_legal = [], n_next = []\<rparr>,
      leaf rook_quiet_mirror,
      \<lparr>n_pos = rook_win_recoloured, n_captures = [mv 7 63], n_evasions = [], n_quiets = [],
       n_legal = [mv 7 63], n_next = [(mv 7 63, 222)]\<rparr>,
      leaf rook_recoloured_after,
      \<lparr>n_pos = rook_choice, n_captures = [mv 7 6, mv 7 63], n_evasions = [], n_quiets = [],
       n_legal = [mv 7 6, mv 7 63], n_next = [(mv 7 6, 232), (mv 7 63, 233)]\<rparr>,
      leaf rook_choice_g1,
      \<lparr>n_pos = rook_choice_mate, n_captures = [], n_evasions = [mv 56 48, mv 56 49], n_quiets = [],
       n_legal = [], n_next = []\<rparr>]"

text \<open>
  The stored bytes. WDL: a draw (2) where nothing else is listed, among them the
  positions that are stalemate without the en-passant right and the rook against rook
  positions; a loss (0) for \<open>ep_best\<close>, for the mated king and for the side without the
  rook; a win (4) for the side with the rook or the queen. DTZ bytes for the positions
  with White to move that the search reaches.
\<close>

definition wdl_bytes :: "(Key \<times> 8 word) list" where
  "wdl_bytes =
     [(101, 2), (102, 2), (103, 0), (104, 2), (105, 2), (106, 4), (202, 0), (303, 0),
      (401, 4), (402, 0), (403, 0), (404, 4), (405, 0), (406, 4), (212, 0), (222, 0), (233, 0)]"

definition dtz_bytes :: "(Key \<times> 8 word) list" where
  "dtz_bytes = [(401, 0), (404, 2), (406, 5)]"

definition chess :: env where
  "chess = book_env book wdl_bytes dtz_bytes"





text \<open>A root move list as the engine hands it over, with the values not yet set.\<close>

definition root_moves :: "Move list \<Rightarrow> ExtMove list" where
  "root_moves ms = map (\<lambda>m. \<lparr>move = m, mvalue = 0\<rparr>) ms"

section \<open>Properties\<close>

subsection \<open>What the capture search returns\<close>

text \<open>
  A read of the WDL table leaves \<^verbatim>\<open>*success\<close> alone or clears it, never returns less
  than \<open>- 2\<close> (the stored byte is unsigned), and does not touch the DTZ tables.
\<close>

lemma probe_wdl_table_out:
  "probe_wdl_table E ts pos s = (v, s', ts') \<Longrightarrow>
     (s' = s \<or> s' = 0) \<and> - 2 \<le> v \<and> (s' = 0 \<and> s \<noteq> 0 \<longrightarrow> v = 0) \<and> DTZ_table ts' = DTZ_table ts"
  by (auto simp: probe_wdl_table_def Let_def split: if_splits option.splits prod.splits)

text \<open>
  The postcondition of \<^verbatim>\<open>probe_ab\<close>: \<^verbatim>\<open>*success\<close> is kept or cleared, a successful
  search returns at least \<open>alpha\<close>, and the DTZ tables are as before.
\<close>

lemma probe_ab_moves_out:
  assumes child: "\<And>ts pos' a b s r. probe_ab n E ts pos' a b s = Inr r \<Longrightarrow> ab_post ts a s r"
  shows "probe_ab_moves n E ts pos ms a b s = Inr r \<Longrightarrow> ab_post ts a s r"
proof (induction ms arbitrary: ts a s)
  case Nil
  obtain v s' ts' where t: "probe_wdl_table E ts pos s = (v, s', ts')"
    by (cases "probe_wdl_table E ts pos s") auto
  from probe_wdl_table_out[OF t] Nil t show ?case
    by (auto simp: ab_post_def)
next
  case (Cons m ms)
  show ?case
  proof (cases "\<not> is_capture E pos m \<or> \<not> is_legal E pos m")
    case True
    with Cons show ?thesis by simp
  next
    case False
    then obtain r1 s1 ts1 where
      c: "probe_ab n E ts (do_move E pos m (gives_check E pos m)) (- b) (- a) s = Inr (r1, s1, ts1)"
      using Cons.prems by (auto split: sum.splits)
    from child[OF c] have p: "s1 = s \<or> s1 = 0" "DTZ_table ts1 = DTZ_table ts"
      by (auto simp: ab_post_def)
    show ?thesis
    proof (cases "s1 = 0")
      case True
      with Cons.prems False c p show ?thesis by (auto simp: ab_post_def)
    next
      case nz: False
      show ?thesis
      proof (cases "- r1 > a")
        case True
        show ?thesis
        proof (cases "- r1 \<ge> b")
          case True
          with Cons.prems False c p nz \<open>- r1 > a\<close> show ?thesis by (auto simp: ab_post_def)
        next
          case nb: False
          with Cons.prems False c nz True
          have "probe_ab_moves n E ts1 pos ms (- r1) b s1 = Inr r" by simp
          from Cons.IH[OF this] p True show ?thesis by (auto simp: ab_post_def)
        qed
      next
        case na: False
        with Cons.prems False c nz
        have "probe_ab_moves n E ts1 pos ms a b s1 = Inr r" by simp
        from Cons.IH[OF this] p show ?thesis by (auto simp: ab_post_def)
      qed
    qed
  qed
qed

lemma probe_ab_out: "probe_ab n E ts pos a b s = Inr r \<Longrightarrow> ab_post ts a s r"
proof (induction n arbitrary: ts pos a b s r)
  case 0
  then show ?case by simp
next
  case (Suc n)
  from Suc.prems have "probe_ab_moves n E ts pos (capture_list E pos) a b s = Inr r" by simp
  then show ?case using Suc.IH by (rule probe_ab_moves_out[rotated])
qed

subsection \<open>The capture loop of the WDL probe\<close>

text \<open>One turn of the loop at a legal capture whose search returned.\<close>

lemma wdl_captures_step:
  assumes "is_capture E pos m" "is_legal E pos m"
    and "probe_ab n E ts (do_move E pos m (gives_check E pos m)) (- 2) (- bc) s = Inr (r, s1, ts1)"
  shows "wdl_captures n E ts pos (m # ms) bc be s =
     (if s1 = 0 then Inr (Return (0, s1, ts1))
      else if - r > bc then
        (if - r = 2 then Inr (Return (2, 2, ts1))
         else if type_of_m E m \<noteq> ENPASSANT then wdl_captures n E ts1 pos ms (- r) be s1
         else if - r > be then wdl_captures n E ts1 pos ms bc (- r) s1
         else wdl_captures n E ts1 pos ms bc be s1)
      else wdl_captures n E ts1 pos ms bc be s1)"
  using assms by (simp add: Let_def)

text \<open>
  The loop keeps \<open>best_cap\<close> and \<open>best_ep\<close> at most 1: a value of 2 leaves the loop,
  and a search started with \<open>alpha = - 2\<close> never returns less than \<open>- 2\<close>.
\<close>

lemma wdl_captures_out:
  "wdl_captures n E ts pos ms bc be s = Inr c \<Longrightarrow> bc \<le> 1 \<Longrightarrow> be \<le> 1 \<Longrightarrow> s \<noteq> 0 \<Longrightarrow>
     wdl_loop_post ts bc be s c"
proof (induction ms arbitrary: ts bc be s)
  case Nil
  then show ?case by (auto simp: wdl_loop_post_def)
next
  case (Cons m ms)
  show ?case
  proof (cases "\<not> is_capture E pos m \<or> \<not> is_legal E pos m")
    case True
    with Cons show ?thesis by simp
  next
    case False
    then obtain r s1 ts1 where
      c: "probe_ab n E ts (do_move E pos m (gives_check E pos m)) (- 2) (- bc) s = Inr (r, s1, ts1)"
      using Cons.prems(1) by (auto split: sum.splits)
    from probe_ab_out[OF c] have p: "s1 = s \<or> s1 = 0" "s1 \<noteq> 0 \<longrightarrow> - r \<le> 2" "DTZ_table ts1 = DTZ_table ts"
      by (auto simp: ab_post_def)
    from False have cl: "is_capture E pos m" "is_legal E pos m" by auto
    note step = wdl_captures_step[OF cl c, of ms be]
    show ?thesis
    proof (cases "s1 = 0")
      case True
      with Cons.prems step p show ?thesis by (auto simp: wdl_loop_post_def)
    next
      case nz: False
      with p have s1: "s1 = s" and le: "- r \<le> 2" by auto
      consider (win) "- r > bc" "- r = 2"
        | (cap) "- r > bc" "- r \<noteq> 2" "type_of_m E m \<noteq> ENPASSANT"
        | (ep) "- r > bc" "- r \<noteq> 2" "type_of_m E m = ENPASSANT" "- r > be"
        | (same) "\<not> (- r > bc \<and> - r \<noteq> 2 \<and> (type_of_m E m \<noteq> ENPASSANT \<or> - r > be))" "\<not> (- r > bc \<and> - r = 2)"
        by blast
      then show ?thesis
      proof cases
        case win
        with Cons.prems step nz p show ?thesis by (auto simp: wdl_loop_post_def)
      next
        case cap
        with Cons.prems(1) step nz have "wdl_captures n E ts1 pos ms (- r) be s1 = Inr c" by simp
        from Cons.IH[OF this] cap le Cons.prems s1 p(3) show ?thesis
          by (auto simp: wdl_loop_post_def split: ctl.splits)
      next
        case ep
        with Cons.prems(1) step nz have "wdl_captures n E ts1 pos ms bc (- r) s1 = Inr c" by simp
        from Cons.IH[OF this] ep le Cons.prems s1 p(3) show ?thesis
          by (auto simp: wdl_loop_post_def split: ctl.splits)
      next
        case same
        with Cons.prems(1) step nz have "wdl_captures n E ts1 pos ms bc be s1 = Inr c"
          by (auto split: if_splits)
        from Cons.IH[OF this] Cons.prems s1 p(3) show ?thesis
          by (auto simp: wdl_loop_post_def split: ctl.splits)
      qed
    qed
  qed
qed

text \<open>The loop over a list in two parts.\<close>

lemma wdl_captures_append:
  "wdl_captures n E ts pos (pre @ rest) bc be s =
     (case wdl_captures n E ts pos pre bc be s of
        Inl f \<Rightarrow> Inl f
      | Inr (Return r) \<Rightarrow> Inr (Return r)
      | Inr (Next (bc', be', s', ts')) \<Rightarrow> wdl_captures n E ts' pos rest bc' be' s')"
proof (induction pre arbitrary: ts bc be s)
  case Nil
  then show ?case by simp
next
  case (Cons m pre)
  show ?case
  proof (cases "\<not> is_capture E pos m \<or> \<not> is_legal E pos m")
    case True
    with Cons show ?thesis by simp
  next
    case False
    show ?thesis
    proof (cases "probe_ab n E ts (do_move E pos m (gives_check E pos m)) (- 2) (- bc) s")
      case (Inl f)
      with False show ?thesis by simp
    next
      case (Inr t)
      obtain r s1 ts1 where t: "t = (r, s1, ts1)" by (cases t) auto
      from False have cl: "is_capture E pos m" "is_legal E pos m" by auto
      show ?thesis
        unfolding append_Cons wdl_captures_step[OF cl Inr[unfolded t]]
        by (simp add: Cons.IH)
    qed
  qed
qed

subsection \<open>The WDL probe\<close>

lemma TB_probe_wdl_cases:
  "TB_probe_wdl n E ts pos =
     (case wdl_captures n E ts pos (capture_list E pos) (- 3) (- 3) 1 of
        Inl f \<Rightarrow> Inl f
      | Inr (Return r) \<Rightarrow> Inr r
      | Inr (Next (best_cap, best_ep, success, ts1)) \<Rightarrow>
          (case probe_wdl_table E ts1 pos success of
             (v, success2, ts2) \<Rightarrow>
               if success2 = 0 then Inr (0, success2, ts2)
               else (case wdl_reconcile E pos (capture_list E pos) best_cap best_ep v success2 of
                       (w, s) \<Rightarrow> Inr (w, s, ts2))))"
  by (simp add: TB_probe_wdl_def Let_def)

lemma TB_probe_wdl_next:
  assumes "wdl_captures n E ts pos (capture_list E pos) (- 3) (- 3) 1 = Inr (Next (best_cap, best_ep, s, ts1))"
    and "probe_wdl_table E ts1 pos s = (v, s2, ts2)"
  shows "TB_probe_wdl n E ts pos =
     (if s2 = 0 then Inr (0, s2, ts2)
      else Inr (fst (wdl_reconcile E pos (capture_list E pos) best_cap best_ep v s2),
                snd (wdl_reconcile E pos (capture_list E pos) best_cap best_ep v s2), ts2))"
  using assms by (simp add: TB_probe_wdl_cases split: prod.splits)

text \<open>
  The WDL probe leaves \<^verbatim>\<open>*success\<close> in \<open>{0, 1, 2}\<close>, returns 0 when it fails, at least
  \<open>- 2\<close> always and at most 2 when it reports a best capture.
\<close>

lemma TB_probe_wdl_out:
  assumes "TB_probe_wdl n E ts pos = Inr r"
  shows "wdl_post ts r"
proof (cases "wdl_captures n E ts pos (capture_list E pos) (- 3) (- 3) 1")
  case (Inl f)
  with assms show ?thesis by (simp add: TB_probe_wdl_cases)
next
  case (Inr c)
  from wdl_captures_out[OF Inr] have post: "wdl_loop_post ts (- 3) (- 3) 1 c" by simp
  show ?thesis
  proof (cases c)
    case (Return x)
    with assms Inr post show ?thesis
      by (auto simp: TB_probe_wdl_cases wdl_loop_post_def wdl_post_def)
  next
    case (Next y)
    obtain bc be s ts1 where y: "y = (bc, be, s, ts1)" by (cases y) auto
    obtain v s2 ts2 where t: "probe_wdl_table E ts1 pos s = (v, s2, ts2)"
      by (cases "probe_wdl_table E ts1 pos s") auto
    from post Next y have inv: "- 3 \<le> bc" "bc \<le> 1" "- 3 \<le> be" "be \<le> 1" "s = 1" "DTZ_table ts1 = DTZ_table ts"
      by (auto simp: wdl_loop_post_def)
    from probe_wdl_table_out[OF t] inv have tv: "s2 = 1 \<or> s2 = 0" "- 2 \<le> v" "DTZ_table ts2 = DTZ_table ts"
      by auto
    from assms have "r = (if s2 = 0 then (0, s2, ts2)
      else (fst (wdl_reconcile E pos (capture_list E pos) bc be v s2),
                snd (wdl_reconcile E pos (capture_list E pos) bc be v s2), ts2))"
      unfolding TB_probe_wdl_next[OF Inr[unfolded Next y] t] by (simp split: if_splits)
    with inv tv show ?thesis
      by (auto simp: wdl_post_def wdl_reconcile_def Let_def split: if_splits)
  qed
qed

lemma wdl_to_dtz_at:
  "- 2 \<le> w \<Longrightarrow> w \<le> 2 \<Longrightarrow> array_at wdl_to_dtz (w + 2) = Inr (wdl_to_dtz ! nat (w + 2))"
  by (simp add: array_at_def wdl_to_dtz_def)

lemma wdl_to_dtz_values:
  "wdl_to_dtz ! nat (- 2 + 2) = - 1" "wdl_to_dtz ! nat (- 1 + 2) = - 101"
  "wdl_to_dtz ! nat (0 + 2) = 0" "wdl_to_dtz ! nat (1 + 2) = 101" "wdl_to_dtz ! nat (2 + 2) = 1"
  by (simp_all add: wdl_to_dtz_def)

text \<open>When only en-passant captures are legal, \<open>best_cap\<close> stays where it started.\<close>

lemma wdl_captures_only_ep:
  "no_legal_non_ep E pos ms \<Longrightarrow>
   wdl_captures n E ts pos ms bc be s = Inr (Next (bc', be', s', ts')) \<Longrightarrow> bc' = bc"
proof (induction ms arbitrary: ts be s)
  case Nil
  then show ?case by simp
next
  case (Cons m ms)
  from Cons.prems(1) have rest: "no_legal_non_ep E pos ms"
    and m: "type_of_m E m = ENPASSANT \<or> \<not> is_legal E pos m"
    by (auto simp: no_legal_non_ep_def)
  show ?case
  proof (cases "\<not> is_capture E pos m \<or> \<not> is_legal E pos m")
    case True
    with Cons.prems(2) Cons.IH[OF rest] show ?thesis by simp
  next
    case False
    then obtain r s1 ts1 where
      c: "probe_ab n E ts (do_move E pos m (gives_check E pos m)) (- 2) (- bc) s = Inr (r, s1, ts1)"
      using Cons.prems(2) by (auto split: sum.splits)
    from False have cl: "is_capture E pos m" "is_legal E pos m" by auto
    from m cl have ep: "type_of_m E m = ENPASSANT" by simp
    from Cons.prems(2) ep obtain be1 where
      "wdl_captures n E ts1 pos ms bc be1 s1 = Inr (Next (bc', be', s', ts'))"
      unfolding wdl_captures_step[OF cl c] by (auto split: if_splits)
    with Cons.IH[OF rest] show ?thesis by blast
  qed
qed

subsection \<open>The loops over the root moves\<close>

lemma kept_step:
  assumes "i < num" "i < length rm"
  shows "kept P rm i num = (if P (mvalue (rm ! i)) then [move (rm ! i)] else []) @ kept P rm (Suc i) num"
proof -
  from assms have "i < length (take num rm)" by simp
  then have "drop i (take num rm) = take num rm ! i # drop (Suc i) (take num rm)"
    by (rule Cons_nth_drop_Suc[symmetric])
  with assms show ?thesis by (simp add: kept_def)
qed

lemma kept_update:
  "j \<le> i \<Longrightarrow> kept P (rm[j := x]) (Suc i) num = kept P rm (Suc i) num"
  by (simp add: kept_def take_update_swap)

lemma kept_done: "\<not> i < num \<Longrightarrow> kept P rm i num = []"
  by (simp add: kept_def)

lemma keep_moves_done: "\<not> i < num \<Longrightarrow> keep_moves P rm i j num = Inr (rm, j)"
  by (subst keep_moves.simps) simp

lemma keep_moves_in_range:
  "i < num \<Longrightarrow> keep_moves P rm i j num = Inr r \<Longrightarrow> i < length rm \<and> j < length rm"
  by (subst (asm) keep_moves.simps) (auto split: if_splits)

lemma keep_moves_keep:
  "i < num \<Longrightarrow> i < length rm \<Longrightarrow> j < length rm \<Longrightarrow> P (mvalue (rm ! i)) \<Longrightarrow>
   keep_moves P rm i j num = keep_moves P (rm[j := (rm ! j)\<lparr>move := move (rm ! i)\<rparr>]) (Suc i) (Suc j) num"
  by (subst keep_moves.simps) simp

lemma keep_moves_drop:
  "i < num \<Longrightarrow> i < length rm \<Longrightarrow> j < length rm \<Longrightarrow> \<not> P (mvalue (rm ! i)) \<Longrightarrow>
   keep_moves P rm i j num = keep_moves P rm (Suc i) j num"
  by (subst keep_moves.simps) simp

lemma keep_moves_out:
  "keep_moves P rm i j num = Inr (rm', j') \<Longrightarrow> j \<le> i \<Longrightarrow>
     length rm' = length rm \<and>
     j' = j + length (kept P rm i num) \<and>
     (\<forall>k. k < j \<or> j' \<le> k \<longrightarrow> rm' ! k = rm ! k) \<and>
     (\<forall>k. mvalue (rm' ! k) = mvalue (rm ! k)) \<and>
     (\<forall>k < length (kept P rm i num). move (rm' ! (j + k)) = kept P rm i num ! k)"
proof (induction P rm i j num arbitrary: rm' j' rule: keep_moves.induct)
  case (1 P rm i j num)
  show ?case
  proof (cases "i < num")
    case False
    with "1.prems" show ?thesis by (simp add: kept_done keep_moves_done)
  next
    case True
    from keep_moves_in_range[OF True "1.prems"(1)] have len: "i < length rm" "j < length rm"
      by auto
    then have nlen: "\<not> (length rm \<le> i \<or> length rm \<le> j)" by simp
    show ?thesis
    proof (cases "P (mvalue (rm ! i))")
      case keep: True
      let ?rm1 = "rm[j := (rm ! j)\<lparr>move := move (rm ! i)\<rparr>]"
      from "1.prems"(1) have rec: "keep_moves P ?rm1 (Suc i) (Suc j) num = Inr (rm', j')"
        unfolding keep_moves_keep[where P=P, OF True len keep] .
      from "1.prems"(2) have "Suc j \<le> Suc i" by simp
      from "1.IH"(1)[OF True nlen keep rec this]
      have ih: "length rm' = length ?rm1"
        "j' = Suc j + length (kept P ?rm1 (Suc i) num)"
        "\<forall>k. k < Suc j \<or> j' \<le> k \<longrightarrow> rm' ! k = ?rm1 ! k"
        "\<forall>k. mvalue (rm' ! k) = mvalue (?rm1 ! k)"
        "\<forall>k < length (kept P ?rm1 (Suc i) num). move (rm' ! (Suc j + k)) = kept P ?rm1 (Suc i) num ! k"
        by auto
      have ku: "kept P ?rm1 (Suc i) num = kept P rm (Suc i) num"
        using "1.prems"(2) by (rule kept_update)
      have ks: "kept P rm i num = move (rm ! i) # kept P rm (Suc i) num"
        using kept_step[OF True len(1), of P] keep by simp
      have a: "length rm' = length rm" using ih(1) by simp
      have b: "j' = j + length (kept P rm i num)" using ih(2) ku ks by simp
      have c: "\<forall>k. k < j \<or> j' \<le> k \<longrightarrow> rm' ! k = rm ! k"
        using ih(2,3) len by (auto simp: nth_list_update)
      have d: "\<forall>k. mvalue (rm' ! k) = mvalue (rm ! k)"
        using ih(4) len by (auto simp: nth_list_update)
      have e: "\<forall>k < length (kept P rm i num). move (rm' ! (j + k)) = kept P rm i num ! k"
      proof (intro allI impI)
        fix k assume k: "k < length (kept P rm i num)"
        show "move (rm' ! (j + k)) = kept P rm i num ! k"
        proof (cases k)
          case 0
          with ih(3) len show ?thesis by (simp add: ks)
        next
          case (Suc k')
          with k ks ku ih(5) show ?thesis by simp
        qed
      qed
      from a b c d e show ?thesis by blast
    next
      case drop: False
      from "1.prems"(1) have rec: "keep_moves P rm (Suc i) j num = Inr (rm', j')"
        unfolding keep_moves_drop[where P=P, OF True len drop] .
      have ks: "kept P rm i num = kept P rm (Suc i) num"
        using kept_step[OF True len(1), of P] drop by simp
      from "1.prems"(2) have "j \<le> Suc i" by simp
      from "1.IH"(2)[OF True nlen drop rec this] ks show ?thesis by auto
    qed
  qed
qed

lemma keep_moves_from_start:
  assumes "keep_moves P rm 0 0 num = Inr (rm', j')"
  shows "map move (take j' rm') = kept P rm 0 num \<and> j' = length (kept P rm 0 num) \<and>
         length rm' = length rm \<and> map mvalue rm' = map mvalue rm \<and> drop j' rm' = drop j' rm \<and> j' \<le> num"
proof -
  from keep_moves_out[OF assms] have
    l: "length rm' = length rm" and j: "j' = length (kept P rm 0 num)"
    and c: "\<forall>k. j' \<le> k \<longrightarrow> rm' ! k = rm ! k"
    and d: "\<forall>k. mvalue (rm' ! k) = mvalue (rm ! k)"
    and e: "\<forall>k < length (kept P rm 0 num). move (rm' ! k) = kept P rm 0 num ! k"
    by auto
  have jn: "j' \<le> min num (length rm)"
  proof -
    have "length (kept P rm 0 num) \<le> length (take num rm)"
      unfolding kept_def by (simp del: length_take)
    with j show ?thesis by simp
  qed
  have m: "map move (take j' rm') = kept P rm 0 num"
    using e j jn l by (intro nth_equalityI) auto
  have v: "map mvalue rm' = map mvalue rm"
    using d l by (intro nth_equalityI) auto
  have dr: "drop j' rm' = drop j' rm"
    using c l by (intro nth_equalityI) auto
  from m j l v dr jn show ?thesis by simp
qed

lemma map_move_update:
  "map move (rm[i := (rm ! i)\<lparr>mvalue := v\<rparr>]) = map move rm"
proof (cases "i < length rm")
  case True
  then show ?thesis by (simp add: map_update list_update_same_conv)
next
  case False
  then show ?thesis by (simp add: list_update_beyond)
qed

lemma root_probe_moves_done:
  "\<not> i < num \<Longrightarrow> root_probe_moves n E ts pos dtz rm i num s = Inr (Next (rm, s, ts))"
  by (subst root_probe_moves.simps) simp

lemma root_probe_moves_fault:
  "i < num \<Longrightarrow> length rm \<le> i \<Longrightarrow> root_probe_moves n E ts pos dtz rm i num s = Inl OutOfBounds"
  by (subst root_probe_moves.simps) simp

lemma root_probe_moves_step:
  "i < num \<Longrightarrow> i < length rm \<Longrightarrow>
   root_probe_moves n E ts pos dtz rm i num s =
     (case root_child_value n E ts pos dtz s (move (rm ! i)) of
        Inl f \<Rightarrow> Inl f
      | Inr (v, s1, ts1) \<Rightarrow>
          if s1 = 0 then Inr (Return (rm, ts1))
          else root_probe_moves n E ts1 pos dtz (rm[i := (rm ! i)\<lparr>mvalue := v\<rparr>]) (Suc i) num s1)"
  by (subst root_probe_moves.simps) simp

lemma root_probe_moves_out:
  "root_probe_moves n E ts pos dtz rm i num s = Inr c \<Longrightarrow> root_loop_post rm i num c"
proof (induction n E ts pos dtz rm i num s arbitrary: c rule: root_probe_moves.induct)
  case (1 n E ts pos dtz rm i num s)
  show ?case
  proof (cases "i < num")
    case False
    with "1.prems" show ?thesis by (auto simp: root_loop_post_def root_probe_moves_done)
  next
    case True
    have len: "i < length rm"
    proof (rule ccontr)
      assume "\<not> i < length rm"
      with root_probe_moves_fault[OF True, of rm] "1.prems" show False by simp
    qed
    then have nlen: "\<not> length rm \<le> i" by simp
    from "1.prems" obtain v s1 ts1 where
      cv: "root_child_value n E ts pos dtz s (move (rm ! i)) = Inr (v, s1, ts1)"
      unfolding root_probe_moves_step[OF True len] by (auto split: sum.splits)
    show ?thesis
    proof (cases "s1 = 0")
      case True
      with "1.prems" cv show ?thesis
        unfolding root_probe_moves_step[OF \<open>i < num\<close> len] by (auto simp: root_loop_post_def)
    next
      case False
      let ?rm1 = "rm[i := (rm ! i)\<lparr>mvalue := v\<rparr>]"
      from "1.prems" cv False
      have rec: "root_probe_moves n E ts1 pos dtz ?rm1 (Suc i) num s1 = Inr c"
        unfolding root_probe_moves_step[OF \<open>i < num\<close> len] by simp
      from "1.IH"[OF True nlen cv refl refl False rec]
      have ih: "root_loop_post ?rm1 (Suc i) num c" .
      then show ?thesis using len True
        by (auto simp: root_loop_post_def map_move_update split: ctl.splits)
    qed
  qed
qed

lemma root_probe_moves_split:
  "j \<le> i \<Longrightarrow> i \<le> num \<Longrightarrow>
   root_probe_moves n E ts pos dtz rm j num s =
     (case root_probe_moves n E ts pos dtz rm j i s of
        Inl f \<Rightarrow> Inl f
      | Inr (Return r) \<Rightarrow> Inr (Return r)
      | Inr (Next (rm1, s1, ts1)) \<Rightarrow> root_probe_moves n E ts1 pos dtz rm1 i num s1)"
proof (induction n E ts pos dtz rm j i s rule: root_probe_moves.induct)
  case (1 n E ts pos dtz rm j i s)
  show ?case
  proof (cases "j < i")
    case False
    with "1.prems" have "j = i" by simp
    then show ?thesis by (simp add: root_probe_moves_done)
  next
    case True
    with "1.prems" have jn: "j < num" by simp
    show ?thesis
    proof (cases "length rm \<le> j")
      case True
      with jn \<open>j < i\<close> show ?thesis by (simp add: root_probe_moves_fault)
    next
      case nlen: False
      then have len: "j < length rm" by simp
      show ?thesis
      proof (cases "root_child_value n E ts pos dtz s (move (rm ! j))")
        case (Inl f)
        then show ?thesis
          unfolding root_probe_moves_step[OF jn len] root_probe_moves_step[OF True len] by simp
      next
        case (Inr t)
        obtain v s1 ts1 where t: "t = (v, s1, ts1)" by (cases t) auto
        show ?thesis
        proof (cases "s1 = 0")
          case True
          with Inr t show ?thesis
            unfolding root_probe_moves_step[OF jn len] root_probe_moves_step[OF \<open>j < i\<close> len] by simp
        next
          case False
          from \<open>j < i\<close> have le: "Suc j \<le> i" by simp
          from "1.IH"[OF \<open>j < i\<close> nlen Inr[unfolded t] refl refl False le "1.prems"(2)] Inr t False
          show ?thesis
            unfolding root_probe_moves_step[OF jn len] root_probe_moves_step[OF \<open>j < i\<close> len]
            by simp
        qed
      qed
    qed
  qed
qed

lemma best_win_done: "\<not> i < num \<Longrightarrow> best_win rm i num b = Inr b"
  by (subst best_win.simps) simp

lemma best_win_step:
  "i < num \<Longrightarrow> i < length rm \<Longrightarrow>
   best_win rm i num b =
     best_win rm (Suc i) num (if 0 < mvalue (rm ! i) \<and> mvalue (rm ! i) < b then mvalue (rm ! i) else b)"
  by (subst best_win.simps) (simp add: Let_def)

lemma best_win_in_range: "i < num \<Longrightarrow> best_win rm i num b = Inr b' \<Longrightarrow> i < length rm"
  by (subst (asm) best_win.simps) (auto split: if_splits)

lemma best_win_out:
  "best_win rm i num b = Inr b' \<Longrightarrow>
     b' \<le> b \<and> (b' = b \<or> (\<exists>k. i \<le> k \<and> k < num \<and> b' = mvalue (rm ! k) \<and> 0 < b')) \<and>
     (\<forall>k. i \<le> k \<and> k < num \<and> 0 < mvalue (rm ! k) \<longrightarrow> b' \<le> mvalue (rm ! k)) \<and>
     (i < num \<longrightarrow> num \<le> length rm)"
proof (induction "num - i" arbitrary: i b)
  case 0
  then show ?case by (simp add: best_win_done)
next
  case (Suc d)
  then have lt: "i < num" by simp
  from best_win_in_range[OF lt Suc.prems] have len: "i < length rm" .
  let ?b1 = "if 0 < mvalue (rm ! i) \<and> mvalue (rm ! i) < b then mvalue (rm ! i) else b"
  from Suc.prems have rec: "best_win rm (Suc i) num ?b1 = Inr b'"
    unfolding best_win_step[OF lt len] .
  from Suc.hyps(2) have "d = num - Suc i" by simp
  from Suc.hyps(1)[OF this rec]
  have ih: "b' \<le> ?b1"
    "b' = ?b1 \<or> (\<exists>k. Suc i \<le> k \<and> k < num \<and> b' = mvalue (rm ! k) \<and> 0 < b')"
    "\<forall>k. Suc i \<le> k \<and> k < num \<and> 0 < mvalue (rm ! k) \<longrightarrow> b' \<le> mvalue (rm ! k)"
    "Suc i < num \<longrightarrow> num \<le> length rm"
    by blast+
  have a: "b' \<le> b" using ih(1) by (auto split: if_splits)
  have b: "b' = b \<or> (\<exists>k. i \<le> k \<and> k < num \<and> b' = mvalue (rm ! k) \<and> 0 < b')"
  proof (cases "b' = ?b1")
    case True
    with lt show ?thesis by (auto split: if_splits)
  next
    case False
    with ih(2) obtain k where "Suc i \<le> k" "k < num" "b' = mvalue (rm ! k)" "0 < b'" by blast
    then have "i \<le> k \<and> k < num \<and> b' = mvalue (rm ! k) \<and> 0 < b'" by simp
    then show ?thesis by blast
  qed
  have c: "\<forall>k. i \<le> k \<and> k < num \<and> 0 < mvalue (rm ! k) \<longrightarrow> b' \<le> mvalue (rm ! k)"
  proof (intro allI impI)
    fix k assume k: "i \<le> k \<and> k < num \<and> 0 < mvalue (rm ! k)"
    show "b' \<le> mvalue (rm ! k)"
    proof (cases "k = i")
      case True
      with k ih(1) show ?thesis by (auto split: if_splits)
    next
      case False
      with k have "Suc i \<le> k \<and> k < num \<and> 0 < mvalue (rm ! k)" by simp
      with ih(3) show ?thesis by blast
    qed
  qed
  have d: "i < num \<longrightarrow> num \<le> length rm" using ih(4) len by (cases "Suc i < num") auto
  from a b c d show ?case by blast
qed

lemma best_max_done: "\<not> i < num \<Longrightarrow> best_max rm i num b = Inr b"
  by (subst best_max.simps) simp

lemma best_max_step:
  "i < num \<Longrightarrow> i < length rm \<Longrightarrow>
   best_max rm i num b = best_max rm (Suc i) num (if b < mvalue (rm ! i) then mvalue (rm ! i) else b)"
  by (subst best_max.simps) simp

lemma best_max_in_range: "i < num \<Longrightarrow> best_max rm i num b = Inr b' \<Longrightarrow> i < length rm"
  by (subst (asm) best_max.simps) (auto split: if_splits)

lemma best_max_out:
  "best_max rm i num b = Inr b' \<Longrightarrow>
     b \<le> b' \<and> (b' = b \<or> (\<exists>k. i \<le> k \<and> k < num \<and> b' = mvalue (rm ! k))) \<and>
     (\<forall>k. i \<le> k \<and> k < num \<longrightarrow> mvalue (rm ! k) \<le> b')"
proof (induction "num - i" arbitrary: i b)
  case 0
  then show ?case by (simp add: best_max_done)
next
  case (Suc d)
  then have lt: "i < num" by simp
  from best_max_in_range[OF lt Suc.prems] have len: "i < length rm" .
  let ?b1 = "if b < mvalue (rm ! i) then mvalue (rm ! i) else b"
  from Suc.prems have rec: "best_max rm (Suc i) num ?b1 = Inr b'"
    unfolding best_max_step[OF lt len] .
  from Suc.hyps(2) have "d = num - Suc i" by simp
  from Suc.hyps(1)[OF this rec]
  have ih: "?b1 \<le> b'"
    "b' = ?b1 \<or> (\<exists>k. Suc i \<le> k \<and> k < num \<and> b' = mvalue (rm ! k))"
    "\<forall>k. Suc i \<le> k \<and> k < num \<longrightarrow> mvalue (rm ! k) \<le> b'"
    by blast+
  have a: "b \<le> b'" using ih(1) by (auto split: if_splits)
  have b: "b' = b \<or> (\<exists>k. i \<le> k \<and> k < num \<and> b' = mvalue (rm ! k))"
  proof (cases "b' = ?b1")
    case True
    with lt show ?thesis by (auto split: if_splits)
  next
    case False
    with ih(2) obtain k where "Suc i \<le> k" "k < num" "b' = mvalue (rm ! k)" by blast
    then have "i \<le> k \<and> k < num \<and> b' = mvalue (rm ! k)" by simp
    then show ?thesis by blast
  qed
  have c: "\<forall>k. i \<le> k \<and> k < num \<longrightarrow> mvalue (rm ! k) \<le> b'"
  proof (intro allI impI)
    fix k assume k: "i \<le> k \<and> k < num"
    show "mvalue (rm ! k) \<le> b'"
    proof (cases "k = i")
      case True
      with ih(1) show ?thesis by (auto split: if_splits)
    next
      case False
      with k have "Suc i \<le> k \<and> k < num" by simp
      with ih(3) show ?thesis by blast
    qed
  qed
  from a b c show ?case by blast
qed

lemma keep_moves_total:
  "num \<le> length rm \<Longrightarrow> j \<le> i \<Longrightarrow> \<exists>r. keep_moves P rm i j num = Inr r"
proof (induction "num - i" arbitrary: i j rm)
  case 0
  then show ?case by (simp add: keep_moves_done)
next
  case (Suc d)
  then have lt: "i < num" by simp
  with Suc.prems have len: "i < length rm" "j < length rm" by simp_all
  from Suc.hyps(2) have d: "d = num - Suc i" by simp
  show ?case
  proof (cases "P (mvalue (rm ! i))")
    case True
    from Suc.prems have "num \<le> length (rm[j := (rm ! j)\<lparr>move := move (rm ! i)\<rparr>])" "Suc j \<le> Suc i"
      by simp_all
    from Suc.hyps(1)[OF d this] show ?thesis
      unfolding keep_moves_keep[where P=P, OF lt len True] .
  next
    case False
    from Suc.prems have "j \<le> Suc i" by simp
    from Suc.hyps(1)[OF d Suc.prems(1) this] show ?thesis
      unfolding keep_moves_drop[where P=P, OF lt len False] .
  qed
qed

lemma best_win_total: "num \<le> length rm \<Longrightarrow> \<exists>b'. best_win rm i num b = Inr b'"
proof (induction "num - i" arbitrary: i b)
  case 0
  then show ?case by (simp add: best_win_done)
next
  case (Suc d)
  then have lt: "i < num" by simp
  with Suc.prems have len: "i < length rm" by simp
  from Suc.hyps(2) have d: "d = num - Suc i" by simp
  from Suc.hyps(1)[OF d Suc.prems] show ?case
    unfolding best_win_step[OF lt len] .
qed

lemma keep_moves_result:
  assumes "num \<le> length rm"
  shows "\<exists>rm2 j. keep_moves P rm 0 0 num = Inr (rm2, j) \<and>
           map move (take j rm2) = map move (filter (\<lambda>e. P (mvalue e)) (take num rm)) \<and>
           j = length (filter (\<lambda>e. P (mvalue e)) (take num rm)) \<and>
           length rm2 = length rm \<and> map mvalue rm2 = map mvalue rm \<and> drop j rm2 = drop j rm"
proof -
  from keep_moves_total[OF assms, of 0 0 P] obtain rm2 j where
    k: "keep_moves P rm 0 0 num = Inr (rm2, j)" by auto
  have e: "kept P rm 0 num = map move (filter (\<lambda>e. P (mvalue e)) (take num rm))"
    by (simp add: kept_def)
  have l: "length (map move (filter (\<lambda>e. P (mvalue e)) (take num rm)))
             = length (filter (\<lambda>e. P (mvalue e)) (take num rm))"
    by simp
  from keep_moves_from_start[OF k] k show ?thesis
    unfolding e l by blast
qed

lemma root_loop_len:
  assumes "root_probe_moves n E ts pos dtz rm 0 num s = Inr (Next (rm1, s1, ts2))"
  shows "num \<le> length rm1" "map move rm1 = map move rm"
proof -
  from root_probe_moves_out[OF assms] have p: "length rm1 = length rm" "map move rm1 = map move rm"
    "0 < num \<longrightarrow> num \<le> length rm"
    by (auto simp: root_loop_post_def)
  then show "num \<le> length rm1" by (cases "0 < num") auto
  from p show "map move rm1 = map move rm" by simp
qed

lemma TB_root_probe_next:
  assumes "TB_probe_dtz n E ts pos = Inr (dtz, s, ts1)" and "s \<noteq> 0"
    and "root_probe_moves n E ts1 pos dtz rm 0 num s = Inr (Next (rm1, s1, ts2))"
  shows "TB_root_probe n E ts pos rm num score =
     (let cnt50 = pos_rule50_count pos; score1 = root_score E dtz cnt50 in
      if dtz > 0 then
        (case best_win rm1 0 num 0xffff of
           Inl f \<Rightarrow> Inl f
         | Inr best \<Rightarrow>
             (case has_repeated pos of
                Inl f \<Rightarrow> Inl f
              | Inr rep \<Rightarrow>
                  (case keep_moves (\<lambda>v. v > 0 \<and> v \<le> (if \<not> rep \<and> best + cnt50 \<le> 99 then 99 - cnt50 else best)) rm1 0 0 num of
                     Inl f \<Rightarrow> Inl f
                   | Inr (rm2, j) \<Rightarrow> Inr (1, rm2, j, score1, ts2))))
      else if dtz < 0 then
        (case best_max rm1 0 num 0 of
           Inl f \<Rightarrow> Inl f
         | Inr best \<Rightarrow>
             if - best * 2 + cnt50 < 100 then Inr (1, rm1, num, score1, ts2)
             else
               (case keep_moves (\<lambda>v. v = best) rm1 0 0 num of
                  Inl f \<Rightarrow> Inl f
                | Inr (rm2, j) \<Rightarrow> Inr (1, rm2, j, score1, ts2)))
      else
        (case keep_moves (\<lambda>v. v = 0) rm1 0 0 num of
           Inl f \<Rightarrow> Inl f
         | Inr (rm2, j) \<Rightarrow> Inr (1, rm2, j, score1, ts2)))"
  using assms by (simp add: TB_root_probe_def Let_def cong: sum.case_cong)

subsection \<open>The success flag of the DTZ probe\<close>

lemma probe_dtz_table_out:
  "probe_dtz_table E ts pos wdl s = Inr (d, s', ts') \<Longrightarrow> s' = s \<or> s' = 0 \<or> s' = - 1"
  by (auto simp: probe_dtz_table_def Let_def split: sum.splits option.splits list.splits prod.splits if_splits)

lemma dtz_pawn_moves_out:
  "dtz_pawn_moves n E ts pos ms wdl s = Inr c \<Longrightarrow>
     (case c of Return (v, s', ts') \<Rightarrow> s' = 0 \<or> s' = 1 \<or> s' = 2
              | Next (s', ts') \<Rightarrow> s' = s \<or> s' = 1 \<or> s' = 2)"
proof (induction ms arbitrary: ts s)
  case Nil
  then show ?case by auto
next
  case (Cons m ms)
  show ?case
  proof (cases "type_of_p E (moved_piece E pos m) \<noteq> PAWN \<or> is_capture E pos m \<or> \<not> is_legal E pos m")
    case True
    with Cons show ?thesis by simp
  next
    case False
    then obtain r s1 ts1 where
      c: "TB_probe_wdl n E ts (do_move E pos m (gives_check E pos m)) = Inr (r, s1, ts1)"
      using Cons.prems by (auto split: sum.splits)
    from TB_probe_wdl_out[OF c] have s1: "s1 = 0 \<or> s1 = 1 \<or> s1 = 2"
      by (simp add: wdl_post_def)
    show ?thesis
    proof (cases "s1 = 0 \<or> - r = wdl")
      case True
      with Cons.prems False c s1 show ?thesis
        by (auto split: sum.splits if_splits)
    next
      case f: False
      with Cons.prems False c have "dtz_pawn_moves n E ts1 pos ms wdl s1 = Inr c" by simp
      from Cons.IH[OF this] s1 f show ?thesis by (auto split: ctl.splits)
    qed
  qed
qed

lemma dtz_moves_out:
  assumes child: "\<And>ts pos' v s ts'. TB_probe_dtz n E ts pos' = Inr (v, s, ts') \<Longrightarrow> success_ok s"
  shows "dtz_moves n E ts pos ms wdl best s = Inr (v, s', ts') \<Longrightarrow>
     (s' = s \<and> v = best \<and> list_all (dtz_skipped E pos) ms) \<or> s' = 0 \<or> s' = 1 \<or> s' = 2 \<or>
     (s' = - 1 \<and> child_wrong_side n E pos ms)"
proof (induction ms arbitrary: ts best s)
  case Nil
  then show ?case by simp
next
  case (Cons m ms)
  show ?case
  proof (cases "dtz_skipped E pos m")
    case True
    then have "dtz_moves n E ts pos (m # ms) wdl best s = dtz_moves n E ts pos ms wdl best s"
      by (simp add: dtz_skipped_def)
    with Cons.prems have "dtz_moves n E ts pos ms wdl best s = Inr (v, s', ts')" by simp
    from Cons.IH[OF this] True show ?thesis
      by (auto simp: child_wrong_side_def)
  next
    case False
    then have ns: "\<not> (is_capture E pos m \<or> type_of_p E (moved_piece E pos m) = PAWN \<or> \<not> is_legal E pos m)"
      by (simp add: dtz_skipped_def)
    then obtain r s1 ts1 where
      c: "TB_probe_dtz n E ts (do_move E pos m (gives_check E pos m)) = Inr (r, s1, ts1)"
      using Cons.prems by (auto split: sum.splits)
    from child[OF c] have ok: "success_ok s1" .
    show ?thesis
    proof (cases "s1 = 0")
      case True
      with Cons.prems ns c show ?thesis by simp
    next
      case nz: False
      from Cons.prems ns c nz obtain best1 where
        rec: "dtz_moves n E ts1 pos ms wdl best1 s1 = Inr (v, s', ts')"
        by (auto simp: Let_def split: if_splits)
      from Cons.IH[OF rec] have
        "(s' = s1 \<and> v = best1 \<and> list_all (dtz_skipped E pos) ms) \<or> s' = 0 \<or> s' = 1 \<or> s' = 2 \<or>
         (s' = - 1 \<and> child_wrong_side n E pos ms)" .
      moreover have "child_wrong_side n E pos ms \<Longrightarrow> child_wrong_side n E pos (m # ms)"
        by (auto simp: child_wrong_side_def)
      moreover have "s1 = - 1 \<Longrightarrow> child_wrong_side n E pos (m # ms)"
        using c False by (auto simp: child_wrong_side_def)
      ultimately show ?thesis using ok nz
        by (auto simp: success_ok_def)
    qed
  qed
qed

lemma TB_probe_dtz_exit:
  assumes child: "\<And>ts pos' v s ts'. TB_probe_dtz n E ts pos' = Inr (v, s, ts') \<Longrightarrow> success_ok s"
    and "TB_probe_dtz (Suc n) E ts pos = Inr (v, s, ts')"
  shows "success_ok s \<and>
         (s = - 1 \<longrightarrow>
            (list_all (dtz_skipped E pos) (all_moves E pos) \<and> (v = INT32_MAX \<or> v = - 1 \<or> v = - 101)) \<or>
            child_wrong_side n E pos (all_moves E pos))"
proof -
  from assms(2) obtain wdl s0 ts1 where w: "TB_probe_wdl n E ts pos = Inr (wdl, s0, ts1)"
    by (auto split: sum.splits)
  from TB_probe_wdl_out[OF w] have wp: "s0 = 0 \<or> s0 = 1 \<or> s0 = 2" "- 2 \<le> wdl"
    by (auto simp: wdl_post_def)
  show ?thesis
  proof (cases "s0 = 0 \<or> wdl = 0 \<or> s0 = 2")
    case True
    with assms(2) w wp show ?thesis
      by (auto simp: success_ok_def split: sum.splits if_splits)
  next
    case False
    then have s0: "s0 = 1" "wdl \<noteq> 0" using wp by auto
    let ?pm = "if wdl > 0 then dtz_pawn_moves n E ts1 pos (all_moves E pos) wdl s0
               else Inr (Next (s0, ts1))"
    from assms(2) w s0 obtain c where pm: "?pm = Inr c"
      by (auto split: sum.splits if_splits)
    have pmo: "case c of Return (v, s', ts') \<Rightarrow> s' = 0 \<or> s' = 1 \<or> s' = 2
                       | Next (s', ts') \<Rightarrow> s' = s0 \<or> s' = 1 \<or> s' = 2"
    proof (cases "wdl > 0")
      case True
      with pm have "dtz_pawn_moves n E ts1 pos (all_moves E pos) wdl s0 = Inr c" by simp
      from dtz_pawn_moves_out[OF this] show ?thesis .
    next
      case False
      with pm show ?thesis by auto
    qed
    show ?thesis
    proof (cases c)
      case (Return x)
      with assms(2) w s0 pm pmo show ?thesis
        by (auto simp: success_ok_def split: if_splits)
    next
      case (Next y)
      obtain s2 ts2 where y: "y = (s2, ts2)" by (cases y) auto
      from pmo Next y s0 have s2: "s2 = 1 \<or> s2 = 2" by auto
      from assms(2) w s0 pm Next y obtain d s3 ts3 where
        t: "probe_dtz_table E ts2 pos wdl s2 = Inr (d, s3, ts3)"
        by (auto split: sum.splits if_splits)
      from probe_dtz_table_out[OF t] s2 have s3: "s3 = 1 \<or> s3 = 2 \<or> s3 = 0 \<or> s3 = - 1" by auto
      show ?thesis
      proof (cases "s3 \<ge> 0")
        case True
        with assms(2) w s0 pm Next y t s3 show ?thesis
          by (auto simp: success_ok_def split: sum.splits if_splits)
      next
        case neg: False
        with s3 have s3': "s3 = - 1" by auto
        let ?b = "if wdl > 0 then Inr INT32_MAX else array_at wdl_to_dtz (wdl + 2)"
        from assms(2) w s0 pm Next y t neg obtain best where
          b: "?b = Inr best" and
          dm: "dtz_moves n E ts3 pos (all_moves E pos) wdl best s3 = Inr (v, s, ts')"
          by (auto split: sum.splits if_splits)
        have bv: "best = INT32_MAX \<or> best = - 1 \<or> best = - 101"
        proof (cases "wdl > 0")
          case True
          with b show ?thesis by simp
        next
          case False
          with s0 wp have "wdl = - 2 \<or> wdl = - 1" by arith
          with b False show ?thesis
            by (auto simp: array_at_def wdl_to_dtz_def)
        qed
        have "(s = s3 \<and> v = best \<and> list_all (dtz_skipped E pos) (all_moves E pos)) \<or>
              s = 0 \<or> s = 1 \<or> s = 2 \<or> (s = - 1 \<and> child_wrong_side n E pos (all_moves E pos))"
          using dm by (rule dtz_moves_out[rotated]) (rule child)
        with s3' bv show ?thesis
          by (auto simp: success_ok_def)
      qed
    qed
  qed
qed

lemma TB_probe_dtz_success_ok:
  "TB_probe_dtz n E ts pos = Inr (v, s, ts') \<Longrightarrow> success_ok s"
proof (induction n arbitrary: ts pos v s ts')
  case 0
  then show ?case by simp
next
  case (Suc n)
  have "success_ok s \<and>
         (s = - 1 \<longrightarrow>
            (list_all (dtz_skipped E pos) (all_moves E pos) \<and> (v = INT32_MAX \<or> v = - 1 \<or> v = - 101)) \<or>
            child_wrong_side n E pos (all_moves E pos))"
    using Suc.prems by (rule TB_probe_dtz_exit[rotated]) (rule Suc.IH)
  then show ?case by simp
qed

subsection \<open>The WDL probe of the root moves\<close>

lemma probe_wdl_table_le:
  assumes "wdl_bytes_ok E" and "probe_wdl_table E ts pos s = (v, s', ts')"
  shows "v \<le> 2"
proof -
  have b: "uint (wdl_piece_value E e bside cmirror pos') \<le> 4"
          "uint (wdl_pawn_value E e bside mirror cmirror pos') \<le> 4" for e bside mirror cmirror pos'
    using assms(1) by (auto simp: wdl_bytes_ok_def word_le_def)
  from assms(2) show ?thesis
    using b
    by (auto simp: probe_wdl_table_def Let_def split: if_splits option.splits prod.splits)
qed

lemma TB_probe_wdl_le:
  assumes "wdl_bytes_ok E" and "TB_probe_wdl n E ts pos = Inr (w, s, ts')"
  shows "w \<le> 2"
proof (cases "wdl_captures n E ts pos (capture_list E pos) (- 3) (- 3) 1")
  case (Inl f)
  with assms(2) show ?thesis by (simp add: TB_probe_wdl_cases)
next
  case (Inr c)
  from wdl_captures_out[OF Inr] have post: "wdl_loop_post ts (- 3) (- 3) 1 c" by simp
  show ?thesis
  proof (cases c)
    case (Return x)
    with assms(2) Inr post show ?thesis
      by (auto simp: TB_probe_wdl_cases wdl_loop_post_def)
  next
    case (Next y)
    obtain bc be s1 ts1 where y: "y = (bc, be, s1, ts1)" by (cases y) auto
    obtain v s2 ts2 where t: "probe_wdl_table E ts1 pos s1 = (v, s2, ts2)"
      by (cases "probe_wdl_table E ts1 pos s1") auto
    from post Next y have inv: "bc \<le> 1" "be \<le> 1"
      by (auto simp: wdl_loop_post_def)
    from probe_wdl_table_le[OF assms(1) t] have tv: "v \<le> 2" .
    from assms(2) have "(w, s, ts') = (if s2 = 0 then (0, s2, ts2)
      else (fst (wdl_reconcile E pos (capture_list E pos) bc be v s2),
                snd (wdl_reconcile E pos (capture_list E pos) bc be v s2), ts2))"
      unfolding TB_probe_wdl_next[OF Inr[unfolded Next y] t] by (simp split: if_splits)
    with inv tv show ?thesis
      by (auto simp: wdl_reconcile_def Let_def split: if_splits)
  qed
qed

lemma root_wdl_moves_done:
  "\<not> i < num \<Longrightarrow> root_wdl_moves n E ts pos rm i num best = Inr (Next (rm, best, ts))"
  by (subst root_wdl_moves.simps) simp

lemma root_wdl_moves_fault:
  "i < num \<Longrightarrow> length rm \<le> i \<Longrightarrow> root_wdl_moves n E ts pos rm i num best = Inl OutOfBounds"
  by (subst root_wdl_moves.simps) simp

lemma root_wdl_moves_step:
  "i < num \<Longrightarrow> i < length rm \<Longrightarrow>
   root_wdl_moves n E ts pos rm i num best =
     (case TB_probe_wdl n E ts (root_child E pos (move (rm ! i))) of
        Inl f \<Rightarrow> Inl f
      | Inr (r, s1, ts1) \<Rightarrow>
          if s1 = 0 then Inr (Return (rm, ts1))
          else root_wdl_moves n E ts1 pos (rm[i := (rm ! i)\<lparr>mvalue := - r\<rparr>]) (Suc i) num
                 (if - r > best then - r else best))"
  by (subst root_wdl_moves.simps) (simp add: root_child_def Let_def cong: sum.case_cong)

lemma root_wdl_moves_out:
  "root_wdl_moves n E ts pos rm i num best = Inr c \<Longrightarrow> root_wdl_post n E pos rm i num best c"
proof (induction "num - i" arbitrary: i rm ts best)
  case 0
  then have "\<not> i < num" by simp
  with 0 show ?case by (auto simp: root_wdl_moves_done root_wdl_post_def)
next
  case (Suc d)
  then have lt: "i < num" by simp
  have len: "i < length rm"
  proof (rule ccontr)
    assume "\<not> i < length rm"
    with root_wdl_moves_fault[OF lt, of rm] Suc.prems show False by simp
  qed
  from Suc.prems obtain r s1 ts1 where
    cv: "TB_probe_wdl n E ts (root_child E pos (move (rm ! i))) = Inr (r, s1, ts1)"
    unfolding root_wdl_moves_step[OF lt len] by (auto split: sum.splits)
  show ?case
  proof (cases "s1 = 0")
    case True
    with Suc.prems cv show ?thesis
      unfolding root_wdl_moves_step[OF lt len] by (auto simp: root_wdl_post_def)
  next
    case False
    let ?rm1 = "rm[i := (rm ! i)\<lparr>mvalue := - r\<rparr>]"
    let ?b1 = "if - r > best then - r else best"
    from Suc.prems cv False
    have rec: "root_wdl_moves n E ts1 pos ?rm1 (Suc i) num ?b1 = Inr c"
      unfolding root_wdl_moves_step[OF lt len] by simp
    from Suc.hyps(2) have "d = num - Suc i" by simp
    from Suc.hyps(1)[OF this rec] have ih: "root_wdl_post n E pos ?rm1 (Suc i) num ?b1 c" .
    show ?thesis
    proof (cases c)
      case (Return x)
      with ih show ?thesis
        by (auto simp: root_wdl_post_def map_move_update)
    next
      case (Next y)
      obtain rm1 b' ts' where y: "y = (rm1, b', ts')" by (cases y) auto
      from ih Next y have
        a: "length rm1 = length rm" "map move rm1 = map move rm"
        and un: "\<forall>k. k < Suc i \<or> num \<le> k \<longrightarrow> rm1 ! k = ?rm1 ! k"
        and b: "?b1 \<le> b'" "b' = ?b1 \<or> (\<exists>k. Suc i \<le> k \<and> k < num \<and> b' = mvalue (rm1 ! k))"
        and v: "\<forall>k. Suc i \<le> k \<and> k < num \<longrightarrow>
             mvalue (rm1 ! k) \<le> b' \<and> is_child_wdl n E pos (move (?rm1 ! k)) (mvalue (rm1 ! k))"
        and ln: "Suc i < num \<longrightarrow> num \<le> length rm"
        by (auto simp: root_wdl_post_def map_move_update)
      from un len have vi: "mvalue (rm1 ! i) = - r" by simp
      have u1: "\<forall>k. k < i \<or> num \<le> k \<longrightarrow> rm1 ! k = rm ! k"
        using un lt by (auto simp: nth_list_update)
      have l1: "i < num \<longrightarrow> num \<le> length rm" using ln len lt by (cases "Suc i < num") auto
      have b1: "best \<le> b'" using b(1) by (auto split: if_splits)
      have b2: "b' = best \<or> (\<exists>k. i \<le> k \<and> k < num \<and> b' = mvalue (rm1 ! k))"
      proof (cases "b' = ?b1")
        case True
        show ?thesis
        proof (cases "- r > best")
          case True
          with \<open>b' = ?b1\<close> vi lt have "i \<le> i \<and> i < num \<and> b' = mvalue (rm1 ! i)" by simp
          then show ?thesis by blast
        next
          case False
          with \<open>b' = ?b1\<close> show ?thesis by simp
        qed
      next
        case False
        with b(2) obtain k where "Suc i \<le> k" "k < num" "b' = mvalue (rm1 ! k)" by blast
        then have "i \<le> k \<and> k < num \<and> b' = mvalue (rm1 ! k)" by simp
        then show ?thesis by blast
      qed
      have v1: "\<forall>k. i \<le> k \<and> k < num \<longrightarrow>
             mvalue (rm1 ! k) \<le> b' \<and> is_child_wdl n E pos (move (rm ! k)) (mvalue (rm1 ! k))"
      proof (intro allI impI)
        fix k assume k: "i \<le> k \<and> k < num"
        show "mvalue (rm1 ! k) \<le> b' \<and> is_child_wdl n E pos (move (rm ! k)) (mvalue (rm1 ! k))"
        proof (cases "k = i")
          case True
          have "is_child_wdl n E pos (move (rm ! i)) (- r)"
            unfolding is_child_wdl_def using cv False by blast
          with True vi b(1) show ?thesis by (auto split: if_splits)
        next
          case ne: False
          with k have k': "Suc i \<le> k \<and> k < num" by simp
          from ne have "move (?rm1 ! k) = move (rm ! k)" by simp
          with v k' show ?thesis by metis
        qed
      qed
      from a u1 l1 b1 b2 v1 Next y show ?thesis
        by (simp add: root_wdl_post_def)
    qed
  qed
qed

lemma in_set_take_nth:
  "num \<le> length xs \<Longrightarrow> x \<in> set (take num xs) \<longleftrightarrow> (\<exists>k < num. x = xs ! k)"
  by (auto simp: in_set_conv_nth)

lemma keep_moves_filter:
  assumes "keep_moves P rm 0 0 num = Inr (rm', j')"
  shows "map move (take j' rm') = map move (filter (\<lambda>e. P (mvalue e)) (take num rm))"
    and "j' = length (filter (\<lambda>e. P (mvalue e)) (take num rm))"
proof -
  have e: "kept P rm 0 num = map move (filter (\<lambda>e. P (mvalue e)) (take num rm))"
    by (simp add: kept_def)
  have l: "length (map move (filter (\<lambda>e. P (mvalue e)) (take num rm)))
             = length (filter (\<lambda>e. P (mvalue e)) (take num rm))"
    by simp
  from keep_moves_from_start[OF assms]
  show "map move (take j' rm') = map move (filter (\<lambda>e. P (mvalue e)) (take num rm))"
    and "j' = length (filter (\<lambda>e. P (mvalue e)) (take num rm))"
    unfolding e l by blast+
qed

subsection \<open>A read of the WDL table that finds its entry\<close>


text \<open>At a root whose DTZ value is the start value \<^verbatim>\<open>INT32_MAX\<close> the sum of line 648 wraps around.\<close>

lemma root_wdl_wraps: "root_wdl INT32_MAX 7 = 2"
  by (simp add: root_wdl_def int32_def INT32_MAX_def)

subsection \<open>The probes of a position and of its colour mirror\<close>


















text \<open>
  When each colour of a position \<open>q\<close> has the men the other colour of \<open>pos\<close> has, the
  material string and the keys computed for \<open>q\<close> with the colours exchanged are those of
  \<open>pos\<close>, so both load the same DTZ table.
\<close>

lemma dtz_loaded_mirror:
  assumes "\<forall>pt. popcount E (pieces_cp q 0 pt) = popcount E (pieces_cp pos 1 pt)"
    and "\<forall>pt. popcount E (pieces_cp q 1 pt) = popcount E (pieces_cp pos 0 pt)"
  shows "dtz_loaded E q (\<not> b) = dtz_loaded E pos b"
proof -
  from assms have "side_str E q 0 = side_str E pos (Suc 0)" "side_str E q (Suc 0) = side_str E pos 0"
    by (simp_all add: side_str_def)
  with assms show ?thesis
    by (cases b) (simp_all add: dtz_loaded_def prt_str_def calc_key_def WHITE_def BLACK_def)
qed

















section \<open>The routines on the concrete positions\<close>

subsection \<open>The engine of the book\<close>

lemma chess_fields:
  "type_of_m chess = cfish_type_of_m"
  "from_sq chess = (\<lambda>m. nat ((m div 2 ^ 6) mod 2 ^ 6))"
  "to_sq chess = (\<lambda>m. nat (m mod 2 ^ 6))"
  "type_of_p chess = (\<lambda>p. unat (p AND 7))"
  "generate_captures chess = book_moves book n_captures"
  "generate_evasions chess = book_moves book n_evasions"
  "generate_non_evasions chess = book_moves book (\<lambda>nd. n_captures nd @ n_quiets nd)"
  "generate_quiets chess = book_moves book n_quiets"
  "generate_legal chess = book_moves book n_legal"
  "is_legal chess = (\<lambda>pos m. m \<in> set (book_moves book n_legal pos))"
  "gives_check_special chess = (\<lambda>pos m. False)"
  "do_move chess = book_do_move book"
  "TBHASHBITS chess = 10"
  "wdl_piece_value chess = (\<lambda>e bside cmirror. byte_of wdl_bytes 2)"
  "wdl_pawn_value chess = (\<lambda>e bside mirror cmirror. byte_of wdl_bytes 2)"
  "dtz_pawn_file chess = (\<lambda>e mirror cmirror pos. 0)"
  "dtz_piece_value chess = (\<lambda>e cmirror. byte_of dtz_bytes 0)"
  "dtz_pawn_value chess = (\<lambda>e f mirror cmirror. byte_of dtz_bytes 0)"
  "wdl_to_map chess = [1, 3, 0, 2, 0]"
  "pa_flags chess = [8, 0, 0, 0, 4]"
  "VALUE_MATE chess = 32000" "VALUE_DRAW chess = 0" "MAX_PLY chess = 128" "PawnValueEg chess = 258"
  by (simp_all add: chess_def book_env_def)

lemma ep_only_fields:
  "board ep_only = board_of [(0, 6), (36, 1), (10, 14), (44, 11), (37, 9)]"
  "sideToMove ep_only = WHITE"
  "st ep_only = mk_stack 101 KPvKBP 0 1 0"
  "prev ep_only = []"
  by (simp_all add: ep_only_def mk_pos_def)

lemma ep_only_after_fields:
  "board ep_only_after = board_of [(0, 6), (45, 1), (10, 14), (44, 11)]"
  "sideToMove ep_only_after = BLACK"
  "st ep_only_after = mk_stack 102 KPvKB 0 2 0"
  "prev ep_only_after = []"
  by (simp_all add: ep_only_after_def mk_pos_def)

lemma ep_best_fields:
  "board ep_best = board_of [(0, 6), (36, 1), (18, 14), (44, 11), (37, 9)]"
  "sideToMove ep_best = WHITE"
  "st ep_best = mk_stack 103 KPvKBP 0 1 0"
  "prev ep_best = []"
  by (simp_all add: ep_best_def mk_pos_def)

lemma ep_best_after_fields:
  "board ep_best_after = board_of [(0, 6), (45, 1), (18, 14), (44, 11)]"
  "sideToMove ep_best_after = BLACK"
  "st ep_best_after = mk_stack 104 KPvKB 0 2 0"
  "prev ep_best_after = []"
  by (simp_all add: ep_best_after_def mk_pos_def)

lemma ep_forced_fields:
  "board ep_forced = board_of [(0, 6), (36, 1), (10, 14), (44, 13), (37, 9)]"
  "sideToMove ep_forced = WHITE"
  "st ep_forced = mk_stack 105 KPvKQP 0 1 0"
  "prev ep_forced = []"
  by (simp_all add: ep_forced_def mk_pos_def)

lemma ep_forced_after_fields:
  "board ep_forced_after = board_of [(0, 6), (45, 1), (10, 14), (44, 13)]"
  "sideToMove ep_forced_after = BLACK"
  "st ep_forced_after = mk_stack 106 KPvKQ 0 2 0"
  "prev ep_forced_after = []"
  by (simp_all add: ep_forced_after_def mk_pos_def)

lemma rook_win_fields:
  "board rook_win = board_of [(41, 6), (7, 4), (56, 14), (63, 12)]"
  "sideToMove rook_win = WHITE"
  "st rook_win = mk_stack 201 3001 3 3 0"
  "prev rook_win = []"
  by (simp_all add: rook_win_def mk_pos_def)

lemma rook_mate_fields:
  "board rook_mate = board_of [(41, 6), (63, 4), (56, 14)]"
  "sideToMove rook_mate = BLACK"
  "st rook_mate = mk_stack 202 2001 0 4 (push_bit 63 1)"
  "prev rook_mate = []"
  by (simp_all add: rook_mate_def mk_pos_def)

lemma rook_quiet_fields:
  "board rook_quiet = board_of [(41, 6), (6, 4), (56, 14), (63, 12)]"
  "sideToMove rook_quiet = BLACK"
  "st rook_quiet = mk_stack 203 3001 4 4 0"
  "prev rook_quiet = []"
  by (simp_all add: rook_quiet_def mk_pos_def)

lemma krkr_fields:
  "board krkr = board_of [(6, 6), (1, 4), (54, 14), (56, 12)]"
  "sideToMove krkr = WHITE"
  "st krkr = mk_stack 301 3001 2 2 0"
  "prev krkr = []"
  by (simp_all add: krkr_def mk_pos_def)

lemma krkr_hang_fields:
  "board krkr_hang = board_of [(6, 6), (57, 4), (54, 14), (56, 12)]"
  "sideToMove krkr_hang = BLACK"
  "st krkr_hang = mk_stack 302 3001 3 3 0"
  "prev krkr_hang = []"
  by (simp_all add: krkr_hang_def mk_pos_def)

lemma krkr_lost_fields:
  "board krkr_lost = board_of [(6, 6), (54, 14), (57, 12)]"
  "sideToMove krkr_lost = WHITE"
  "st krkr_lost = mk_stack 303 2003 0 4 0"
  "prev krkr_lost = []"
  by (simp_all add: krkr_lost_def mk_pos_def)

lemma krkr_g2_fields:
  "board krkr_g2 = board_of [(14, 6), (1, 4), (54, 14), (56, 12)]"
  "sideToMove krkr_g2 = BLACK"
  "st krkr_g2 = mk_stack 304 3001 3 3 0"
  "prev krkr_g2 = []"
  by (simp_all add: krkr_g2_def mk_pos_def)

lemma krkr_f2_fields:
  "board krkr_f2 = board_of [(13, 6), (1, 4), (54, 14), (56, 12)]"
  "sideToMove krkr_f2 = BLACK"
  "st krkr_f2 = mk_stack 305 3001 3 3 0"
  "prev krkr_f2 = []"
  by (simp_all add: krkr_f2_def mk_pos_def)

lemma krk_fields:
  "board krk = board_of [(41, 6), (7, 4), (56, 14)]"
  "sideToMove krk = WHITE"
  "st krk = mk_stack 401 2001 92 5 0"
  "prev krk = krk_history"
  by (simp_all add: krk_def mk_pos_def)

lemma krk_mate_fields:
  "board krk_mate = board_of [(41, 6), (63, 4), (56, 14)]"
  "sideToMove krk_mate = BLACK"
  "st krk_mate = mk_stack 402 2001 93 6 (push_bit 63 1)"
  "prev krk_mate = []"
  by (simp_all add: krk_mate_def mk_pos_def)

lemma krk_h7_fields:
  "board krk_h7 = board_of [(41, 6), (55, 4), (56, 14)]"
  "sideToMove krk_h7 = BLACK"
  "st krk_h7 = mk_stack 403 2001 93 6 0"
  "prev krk_h7 = []"
  by (simp_all add: krk_h7_def mk_pos_def)

lemma krk_h7_b8_fields:
  "board krk_h7_b8 = board_of [(41, 6), (55, 4), (57, 14)]"
  "sideToMove krk_h7_b8 = WHITE"
  "st krk_h7_b8 = mk_stack 404 2001 94 7 0"
  "prev krk_h7_b8 = []"
  by (simp_all add: krk_h7_b8_def mk_pos_def)

lemma krk_c6_fields:
  "board krk_c6 = board_of [(42, 6), (7, 4), (56, 14)]"
  "sideToMove krk_c6 = BLACK"
  "st krk_c6 = mk_stack 405 2001 93 6 0"
  "prev krk_c6 = []"
  by (simp_all add: krk_c6_def mk_pos_def)

lemma krk_c6_a7_fields:
  "board krk_c6_a7 = board_of [(42, 6), (7, 4), (48, 14)]"
  "sideToMove krk_c6_a7 = WHITE"
  "st krk_c6_a7 = mk_stack 406 2001 94 7 0"
  "prev krk_c6_a7 = []"
  by (simp_all add: krk_c6_a7_def mk_pos_def)

lemma rook_win_mirror_fields:
  "board rook_win_mirror = board_of [(17, 14), (63, 12), (0, 6), (7, 4)]"
  "sideToMove rook_win_mirror = BLACK"
  "st rook_win_mirror = mk_stack 211 3001 3 3 0"
  "prev rook_win_mirror = []"
  by (simp_all add: rook_win_mirror_def mk_pos_def)

lemma rook_mate_mirror_fields:
  "board rook_mate_mirror = board_of [(17, 14), (7, 12), (0, 6)]"
  "sideToMove rook_mate_mirror = WHITE"
  "st rook_mate_mirror = mk_stack 212 2003 0 4 (push_bit 7 1)"
  "prev rook_mate_mirror = []"
  by (simp_all add: rook_mate_mirror_def mk_pos_def)

lemma rook_quiet_mirror_fields:
  "board rook_quiet_mirror = board_of [(17, 14), (62, 12), (0, 6), (7, 4)]"
  "sideToMove rook_quiet_mirror = WHITE"
  "st rook_quiet_mirror = mk_stack 213 3001 4 4 0"
  "prev rook_quiet_mirror = []"
  by (simp_all add: rook_quiet_mirror_def mk_pos_def)

lemma rook_win_recoloured_fields:
  "board rook_win_recoloured = board_of [(0, 6), (7, 4), (17, 14), (63, 12)]"
  "sideToMove rook_win_recoloured = WHITE"
  "st rook_win_recoloured = mk_stack 221 3001 3 3 0"
  "prev rook_win_recoloured = []"
  by (simp_all add: rook_win_recoloured_def mk_pos_def)

lemma rook_recoloured_after_fields:
  "board rook_recoloured_after = board_of [(0, 6), (63, 4), (17, 14)]"
  "sideToMove rook_recoloured_after = BLACK"
  "st rook_recoloured_after = mk_stack 222 2001 0 4 0"
  "prev rook_recoloured_after = []"
  by (simp_all add: rook_recoloured_after_def mk_pos_def)

lemma rook_choice_fields:
  "board rook_choice = board_of [(41, 6), (7, 4), (56, 14), (63, 12), (6, 10)]"
  "sideToMove rook_choice = WHITE"
  "st rook_choice = mk_stack 231 3005 3 3 0"
  "prev rook_choice = []"
  by (simp_all add: rook_choice_def mk_pos_def)

lemma rook_choice_g1_fields:
  "board rook_choice_g1 = board_of [(41, 6), (6, 4), (56, 14), (63, 12)]"
  "sideToMove rook_choice_g1 = BLACK"
  "st rook_choice_g1 = mk_stack 232 3001 0 4 0"
  "prev rook_choice_g1 = []"
  by (simp_all add: rook_choice_g1_def mk_pos_def)

lemma rook_choice_mate_fields:
  "board rook_choice_mate = board_of [(41, 6), (63, 4), (56, 14), (6, 10)]"
  "sideToMove rook_choice_mate = BLACK"
  "st rook_choice_mate = mk_stack 233 2005 0 4 (push_bit 63 1)"
  "prev rook_choice_mate = []"
  by (simp_all add: rook_choice_mate_def mk_pos_def)

lemmas position_fields =
  ep_only_fields ep_only_after_fields ep_best_fields ep_best_after_fields ep_forced_fields
  ep_forced_after_fields rook_win_fields rook_mate_fields rook_quiet_fields krkr_fields
  krkr_hang_fields krkr_lost_fields krkr_g2_fields krkr_f2_fields krk_fields
  krk_mate_fields krk_h7_fields krk_h7_b8_fields krk_c6_fields krk_c6_a7_fields
  rook_win_mirror_fields rook_mate_mirror_fields rook_quiet_mirror_fields rook_win_recoloured_fields
  rook_recoloured_after_fields rook_choice_fields rook_choice_g1_fields rook_choice_mate_fields

lemma find_node_book:
  "find_node book 101 = Some \<lparr>n_pos = ep_only, n_captures = [ep_mv 36 45], n_evasions = [], n_quiets = [mv 0 1, mv 0 8, mv 0 9], n_legal = [ep_mv 36 45], n_next = [(ep_mv 36 45, 102)]\<rparr>"
  "find_node book 102 = Some \<lparr>n_pos = ep_only_after, n_captures = [], n_evasions = [], n_quiets = [], n_legal = [], n_next = []\<rparr>"
  "find_node book 103 = Some \<lparr>n_pos = ep_best, n_captures = [ep_mv 36 45], n_evasions = [], n_quiets = [mv 0 1, mv 0 8, mv 0 9], n_legal = [ep_mv 36 45, mv 0 1], n_next = [(ep_mv 36 45, 104)]\<rparr>"
  "find_node book 104 = Some \<lparr>n_pos = ep_best_after, n_captures = [], n_evasions = [], n_quiets = [], n_legal = [], n_next = []\<rparr>"
  "find_node book 105 = Some \<lparr>n_pos = ep_forced, n_captures = [ep_mv 36 45], n_evasions = [], n_quiets = [mv 0 1, mv 0 8, mv 0 9], n_legal = [ep_mv 36 45], n_next = [(ep_mv 36 45, 106)]\<rparr>"
  "find_node book 106 = Some \<lparr>n_pos = ep_forced_after, n_captures = [], n_evasions = [], n_quiets = [], n_legal = [], n_next = []\<rparr>"
  "find_node book 201 = Some \<lparr>n_pos = rook_win, n_captures = [mv 7 63], n_evasions = [], n_quiets = [mv 7 6], n_legal = [mv 7 63, mv 7 6], n_next = [(mv 7 63, 202), (mv 7 6, 203)]\<rparr>"
  "find_node book 202 = Some \<lparr>n_pos = rook_mate, n_captures = [], n_evasions = [mv 56 48, mv 56 49], n_quiets = [], n_legal = [], n_next = []\<rparr>"
  "find_node book 203 = Some \<lparr>n_pos = rook_quiet, n_captures = [], n_evasions = [], n_quiets = [], n_legal = [], n_next = []\<rparr>"
  "find_node book 301 = Some \<lparr>n_pos = krkr, n_captures = [], n_evasions = [], n_quiets = [mv 1 57, mv 6 14, mv 6 13], n_legal = [mv 1 57, mv 6 14, mv 6 13], n_next = [(mv 1 57, 302), (mv 6 14, 304), (mv 6 13, 305)]\<rparr>"
  "find_node book 302 = Some \<lparr>n_pos = krkr_hang, n_captures = [mv 56 57], n_evasions = [], n_quiets = [], n_legal = [mv 56 57], n_next = [(mv 56 57, 303)]\<rparr>"
  "find_node book 303 = Some \<lparr>n_pos = krkr_lost, n_captures = [], n_evasions = [], n_quiets = [], n_legal = [], n_next = []\<rparr>"
  "find_node book 304 = Some \<lparr>n_pos = krkr_g2, n_captures = [], n_evasions = [], n_quiets = [], n_legal = [], n_next = []\<rparr>"
  "find_node book 305 = Some \<lparr>n_pos = krkr_f2, n_captures = [], n_evasions = [], n_quiets = [], n_legal = [], n_next = []\<rparr>"
  "find_node book 401 = Some \<lparr>n_pos = krk, n_captures = [], n_evasions = [], n_quiets = [mv 7 55, mv 41 42, mv 7 63], n_legal = [mv 7 55, mv 41 42, mv 7 63], n_next = [(mv 7 55, 403), (mv 41 42, 405), (mv 7 63, 402)]\<rparr>"
  "find_node book 402 = Some \<lparr>n_pos = krk_mate, n_captures = [], n_evasions = [mv 56 48, mv 56 49], n_quiets = [], n_legal = [], n_next = []\<rparr>"
  "find_node book 403 = Some \<lparr>n_pos = krk_h7, n_captures = [], n_evasions = [], n_quiets = [mv 56 57, mv 56 48, mv 56 49], n_legal = [mv 56 57], n_next = [(mv 56 57, 404)]\<rparr>"
  "find_node book 404 = Some \<lparr>n_pos = krk_h7_b8, n_captures = [], n_evasions = [], n_quiets = [], n_legal = [], n_next = []\<rparr>"
  "find_node book 405 = Some \<lparr>n_pos = krk_c6, n_captures = [], n_evasions = [], n_quiets = [mv 56 48, mv 56 57, mv 56 49], n_legal = [mv 56 48], n_next = [(mv 56 48, 406)]\<rparr>"
  "find_node book 406 = Some \<lparr>n_pos = krk_c6_a7, n_captures = [], n_evasions = [], n_quiets = [], n_legal = [], n_next = []\<rparr>"
  "find_node book 211 = Some \<lparr>n_pos = rook_win_mirror, n_captures = [mv 63 7], n_evasions = [], n_quiets = [mv 63 62], n_legal = [mv 63 7, mv 63 62], n_next = [(mv 63 7, 212), (mv 63 62, 213)]\<rparr>"
  "find_node book 212 = Some \<lparr>n_pos = rook_mate_mirror, n_captures = [], n_evasions = [mv 0 8, mv 0 9], n_quiets = [], n_legal = [], n_next = []\<rparr>"
  "find_node book 213 = Some \<lparr>n_pos = rook_quiet_mirror, n_captures = [], n_evasions = [], n_quiets = [], n_legal = [], n_next = []\<rparr>"
  "find_node book 221 = Some \<lparr>n_pos = rook_win_recoloured, n_captures = [mv 7 63], n_evasions = [], n_quiets = [], n_legal = [mv 7 63], n_next = [(mv 7 63, 222)]\<rparr>"
  "find_node book 222 = Some \<lparr>n_pos = rook_recoloured_after, n_captures = [], n_evasions = [], n_quiets = [], n_legal = [], n_next = []\<rparr>"
  "find_node book 231 = Some \<lparr>n_pos = rook_choice, n_captures = [mv 7 6, mv 7 63], n_evasions = [], n_quiets = [], n_legal = [mv 7 6, mv 7 63], n_next = [(mv 7 6, 232), (mv 7 63, 233)]\<rparr>"
  "find_node book 232 = Some \<lparr>n_pos = rook_choice_g1, n_captures = [], n_evasions = [], n_quiets = [], n_legal = [], n_next = []\<rparr>"
  "find_node book 233 = Some \<lparr>n_pos = rook_choice_mate, n_captures = [], n_evasions = [mv 56 48, mv 56 49], n_quiets = [], n_legal = [], n_next = []\<rparr>"
  by (simp_all add: book_def leaf_def position_fields mk_stack_def)

lemma tables_simps:
  "TB_hash tables 0 = [\<lparr>hkey = 2001, hptr = 2\<rparr>, \<lparr>hkey = 2003, hptr = 2\<rparr>, \<lparr>hkey = 3001, hptr = 3\<rparr>,
                       \<lparr>hkey = 2005, hptr = 6\<rparr>]"
  "TB_hash tables (Suc 0) = pawn_bucket"
  "tb_entries tables = wdl_entries"
  "DTZ_table tables = [\<lparr>key1 = 2001, key2 = 2003, entry = Some krk_dtz\<rparr>]"
  "TB_hash tables_no_krkr 0 = [\<lparr>hkey = 2001, hptr = 2\<rparr>, \<lparr>hkey = 2003, hptr = 2\<rparr>, \<lparr>hkey = 0, hptr = 3\<rparr>,
                               \<lparr>hkey = 2005, hptr = 6\<rparr>]"
  "TB_hash tables_no_krkr (Suc 0) = pawn_bucket"
  "tb_entries tables_no_krkr = wdl_entries"
  "DTZ_table tables_no_krkr = [\<lparr>key1 = 2001, key2 = 2003, entry = Some krk_dtz\<rparr>]"
  by (simp_all add: tables_def tables_no_krkr_def)

lemmas book_defs = chess_fields position_fields find_node_book book_moves_def node_of_def
  book_do_move_def mk_stack_def board_of_def byte_of_def cfish_type_of_m_def mv_def ep_mv_def
  wdl_bytes_def dtz_bytes_def KPvKBP_def KPvKB_def KPvKQP_def KPvKQ_def pawn_bucket_def

lemmas pos_defs = pos_checkers_def pos_material_key_def pos_stm_def pos_rule50_count_def
  piece_on_def is_empty_def moved_piece_def is_capture_def gives_check_def
  discovered_check_candidates_def pieces_c_def pieces_cp_def

lemmas probe_defs = capture_list_def add_underprom_caps_def probe_wdl_table_def
  hash_index_def perspective_def TB_probe_wdl_def wdl_reconcile_def
  stalemate_without_ep_def no_legal_non_ep_def WHITE_def BLACK_def PAWN_def KING_def

lemmas eval_simps = book_defs pos_defs probe_defs tables_simps wdl_entries_def

subsection \<open>En passant\<close>

lemma ep_only_loop:
  "wdl_captures (Suc 0) chess tables ep_only (capture_list chess ep_only) (- 3) (- 3) 1
     = Inr (Next (- 3, 0, 1, tables))"
  by (simp add: eval_simps)

lemma ep_only_table: "probe_wdl_table chess tables ep_only 1 = (0, 1, tables)"
  by (simp add: eval_simps)

lemma ep_only_stalemate: "stalemate_without_ep chess ep_only (capture_list chess ep_only)"
  by (simp add: eval_simps)

lemma ep_only_wdl: "TB_probe_wdl (Suc 0) chess tables ep_only = Inr (0, 1, tables)"
  by (simp add: eval_simps)

lemma ep_best_loop:
  "wdl_captures (Suc 0) chess tables ep_best (capture_list chess ep_best) (- 3) (- 3) 1
     = Inr (Next (- 3, 0, 1, tables))"
  by (simp add: eval_simps)

lemma ep_best_table: "probe_wdl_table chess tables ep_best 1 = (- 2, 1, tables)"
  by (simp add: eval_simps)

lemma ep_forced_loop:
  "wdl_captures (Suc 0) chess tables ep_forced (capture_list chess ep_forced) (- 3) (- 3) 1
     = Inr (Next (- 3, - 2, 1, tables))"
  by (simp add: eval_simps)

lemma ep_forced_table: "probe_wdl_table chess tables ep_forced 1 = (0, 1, tables)"
  by (simp add: eval_simps)

lemma ep_forced_stalemate: "stalemate_without_ep chess ep_forced (capture_list chess ep_forced)"
  by (simp add: eval_simps)

subsection \<open>The winning rook capture\<close>

lemma rook_win_captures: "capture_list chess rook_win = [] @ mv 7 63 # []"
  by (simp add: eval_simps)

lemma rook_win_capture_legal:
  "is_capture chess rook_win (mv 7 63)" "is_legal chess rook_win (mv 7 63)"
  by (simp_all add: eval_simps)

lemma rook_win_child:
  "probe_ab (Suc 0) chess tables_no_krkr
     (do_move chess rook_win (mv 7 63) (gives_check chess rook_win (mv 7 63))) (- 2) (- (- 3)) 1
   = Inr (- 2, 1, tables_no_krkr)"
  by (simp add: eval_simps)

lemma rook_win_no_table: "probe_wdl_table chess tables_no_krkr rook_win 1 = (0, 0, tables_no_krkr)"
  by (simp add: eval_simps)

text \<open>
  In \<open>rook_choice\<close> the capture of the knight comes first and its probe fails for want
  of the table; the mating capture of the rook behind it has the value 2.
\<close>

lemma rook_choice_mate_value:
  "is_capture chess rook_choice (mv 7 63)" "is_legal chess rook_choice (mv 7 63)"
  "probe_ab (Suc 0) chess tables_no_krkr
     (do_move chess rook_choice (mv 7 63) (gives_check chess rook_choice (mv 7 63))) (- 2) 3 1
   = Inr (- 2, 1, tables_no_krkr)"
  by (simp_all add: eval_simps)

lemma rook_choice_wdl:
  "TB_probe_wdl (Suc 0) chess tables_no_krkr rook_choice = Inr (0, 0, tables_no_krkr)"
  by (simp add: eval_simps)

lemma rook_win_wdl:
  "TB_probe_wdl (Suc (Suc 0)) chess tables_no_krkr rook_win = Inr (2, 2, tables_no_krkr)"
  by (simp add: eval_simps)

subsection \<open>Colour mirrors\<close>




lemmas dtz_defs = all_moves_def probe_dtz_table_def dtz_to_front_def dtz_value_def array_at_def
  wdl_to_dtz_def krk_dtz_def INT32_MAX_def dtz_skipped_def

lemmas root_defs = root_child_value_def root_probe_moves.simps keep_moves.simps best_win.simps
  best_max.simps root_wdl_moves.simps TB_root_probe_def TB_root_probe_wdl_def root_score_def
  root_wdl_def int32_def wdl_to_Value_def c_div_def has_repeated_def rep_scan.simps krk_history_def
  root_moves_def

subsection \<open>The book's colour mirror\<close>









subsection \<open>The DTZ probe and the root probes\<close>

lemma rook_mate_dtz:
  "TB_probe_dtz (Suc (Suc 0)) chess tables rook_mate = Inr (- 1, - 1, tables)"
  by (simp add: eval_simps dtz_defs)

lemma rook_mate_no_move: "list_all (dtz_skipped chess rook_mate) (all_moves chess rook_mate)"
  by (simp add: eval_simps dtz_defs)

lemma krk_h7_dtz:
  "TB_probe_dtz (Suc (Suc 0)) chess tables krk_h7 = Inr (- 6, 1, tables)"
  by (simp add: eval_simps dtz_defs)

lemma krkr_dtz: "TB_probe_dtz (Suc (Suc 0)) chess tables krkr = Inr (0, 1, tables)"
  by (simp add: eval_simps dtz_defs)

lemma krkr_loop:
  "root_probe_moves (Suc (Suc 0)) chess tables krkr 0 (root_moves [mv 1 57, mv 6 14, mv 6 13]) 0 3 1
     = Inr (Next ([\<lparr>move = mv 1 57, mvalue = - 2\<rparr>, \<lparr>move = mv 6 14, mvalue = 0\<rparr>,
                   \<lparr>move = mv 6 13, mvalue = 0\<rparr>], 1, tables))"
  by (simp add: eval_simps dtz_defs root_defs)

lemma krk_dtz: "TB_probe_dtz (Suc (Suc 0)) chess tables krk = Inr (1, 1, tables)"
  by (simp add: eval_simps dtz_defs)

lemma krk_loop:
  "root_probe_moves (Suc (Suc 0)) chess tables krk 1 (root_moves [mv 7 55, mv 41 42, mv 7 63]) 0 3 1
     = Inr (Next ([\<lparr>move = mv 7 55, mvalue = 7\<rparr>, \<lparr>move = mv 41 42, mvalue = 13\<rparr>,
                   \<lparr>move = mv 7 63, mvalue = 1\<rparr>], 1, tables))"
  by (simp add: eval_simps dtz_defs root_defs)

lemma krk_not_repeated: "has_repeated krk = Inr False"
  by (simp add: eval_simps root_defs)

lemma krk_root:
  "TB_root_probe (Suc (Suc 0)) chess tables krk (root_moves [mv 7 55, mv 41 42, mv 7 63]) 3 0
     = Inr (1, [\<lparr>move = mv 7 55, mvalue = 7\<rparr>, \<lparr>move = mv 7 63, mvalue = 13\<rparr>,
                \<lparr>move = mv 7 63, mvalue = 1\<rparr>], 2, 31871, tables)"
  by (simp add: eval_simps dtz_defs root_defs)

lemma rook_win_root:
  "TB_root_probe (Suc (Suc (Suc 0))) chess tables_no_krkr rook_win (root_moves [mv 7 63, mv 7 6]) 2 5
     = Inr (0, [\<lparr>move = mv 7 63, mvalue = 1\<rparr>, \<lparr>move = mv 7 6, mvalue = 0\<rparr>], 2, 5, tables_no_krkr)"
  by (simp add: eval_simps dtz_defs root_defs)

lemma krkr_root_wdl:
  "TB_root_probe_wdl (Suc (Suc 0)) chess tables krkr (root_moves [mv 1 57, mv 6 14, mv 6 13]) 3 0
     = Inr (1, [\<lparr>move = mv 6 14, mvalue = - 2\<rparr>, \<lparr>move = mv 6 13, mvalue = 0\<rparr>,
                \<lparr>move = mv 6 13, mvalue = 0\<rparr>], 2, 0, tables)"
  by (simp add: eval_simps dtz_defs root_defs)

text \<open>The score of a root whose DTZ value is \<^verbatim>\<open>INT32_MAX\<close>, with 7 plies on the counter.\<close>

lemma root_score_at_max: "root_score chess INT32_MAX 7 = 31871"
  by (simp add: root_score_def root_wdl_def int32_def INT32_MAX_def wdl_to_Value_def chess_fields)

lemma chess_bytes_ok: "wdl_bytes_ok chess"
  by (auto simp: wdl_bytes_ok_def chess_def book_env_def byte_of_def wdl_bytes_def split: option.splits if_splits)

lemma rook_win_dtz:
  "TB_probe_dtz (Suc (Suc (Suc 0))) chess tables_no_krkr rook_win = Inr (1, 2, tables_no_krkr)"
  by (simp add: eval_simps dtz_defs)

lemma rook_win_first_move:
  "root_probe_moves (Suc (Suc (Suc 0))) chess tables_no_krkr rook_win 1
       (root_moves [mv 7 63, mv 7 6]) 0 1 2
     = Inr (Next ([\<lparr>move = mv 7 63, mvalue = 1\<rparr>, \<lparr>move = mv 7 6, mvalue = 0\<rparr>], 2, tables_no_krkr))"
  by (simp add: eval_simps dtz_defs root_defs)

lemma rook_win_second_move:
  "root_child_value (Suc (Suc (Suc 0))) chess tables_no_krkr rook_win 1 2
       (move (root_moves [mv 7 63, mv 7 6] ! 1))
     = Inr (0, 0, tables_no_krkr)"
  by (simp add: eval_simps dtz_defs root_defs)

section \<open>The claims\<close>




text \<open>
  C2. \<^verbatim>\<open>TB_probe_dtz\<close> begins with the WDL probe. When that probe returns the value 0
  the DTZ probe returns 0; when it returns another value with \<^verbatim>\<open>*success = 2\<close> the DTZ
  probe returns \<^verbatim>\<open>wdl_to_dtz[wdl + 2]\<close>, that is \<open>- 1\<close>, \<open>- 101\<close>, 101 or 1 for the values
  \<open>- 2\<close>, \<open>- 1\<close>, 1 and 2 (no other value comes with \<^verbatim>\<open>*success = 2\<close>). In both cases
  the registry is returned as the WDL probe left it, and the list of resident DTZ
  tables is the one before the call: no DTZ table is looked up.
\<close>

theorem dtz_draw_or_best_capture:
  assumes "TB_probe_wdl n E ts pos = Inr (wdl, s, ts1)"
  shows "(wdl = 0 \<longrightarrow> TB_probe_dtz (Suc n) E ts pos = Inr (0, s, ts1)) \<and>
         (wdl \<noteq> 0 \<and> s = 2 \<longrightarrow>
            TB_probe_dtz (Suc n) E ts pos = Inr (wdl_to_dtz ! nat (wdl + 2), 2, ts1) \<and>
            (wdl = - 2 \<or> wdl = - 1 \<or> wdl = 1 \<or> wdl = 2) \<and>
            wdl_to_dtz ! nat (wdl + 2) =
              (if wdl = - 2 then - 1 else if wdl = - 1 then - 101 else if wdl = 1 then 101 else 1)) \<and>
         DTZ_table ts1 = DTZ_table ts"
proof -
  from TB_probe_wdl_out[OF assms]
  have r: "- 2 \<le> wdl" "s = 2 \<longrightarrow> wdl \<le> 2" "DTZ_table ts1 = DTZ_table ts"
    by (auto simp: wdl_post_def)
  have a: "wdl = 0 \<longrightarrow> TB_probe_dtz (Suc n) E ts pos = Inr (0, s, ts1)"
    using assms by simp
  have b: "TB_probe_dtz (Suc n) E ts pos = Inr (wdl_to_dtz ! nat (wdl + 2), 2, ts1)"
    if "wdl \<noteq> 0" "s = 2"
    using assms that r wdl_to_dtz_at[of wdl] by simp
  have c: "wdl = - 2 \<or> wdl = - 1 \<or> wdl = 1 \<or> wdl = 2" if "wdl \<noteq> 0" "s = 2"
    using that r by arith
  have d: "wdl_to_dtz ! nat (wdl + 2) =
              (if wdl = - 2 then - 1 else if wdl = - 1 then - 101 else if wdl = 1 then 101 else 1)"
    if "wdl \<noteq> 0" "s = 2"
    using c[OF that] wdl_to_dtz_values by auto
  from a b c d r(3) show ?thesis by blast
qed

text \<open>
  The winning capture Rh1xh8 in \<open>rook_win\<close>: the WDL probe returns 2 with
  \<^verbatim>\<open>*success = 2\<close> and the DTZ probe the constant 1.
\<close>

theorem dtz_draw_or_best_capture_witness:
  "TB_probe_wdl (Suc (Suc 0)) chess tables_no_krkr rook_win = Inr (2, 2, tables_no_krkr) \<and>
   TB_probe_dtz (Suc (Suc (Suc 0))) chess tables_no_krkr rook_win = Inr (1, 2, tables_no_krkr)"
  using dtz_draw_or_best_capture[OF rook_win_wdl] rook_win_wdl
  by (simp add: wdl_to_dtz_def)

text \<open>
  C3. When the capture loop of \<^verbatim>\<open>TB_probe_wdl\<close> has run through with \<open>best_cap\<close> and
  \<open>best_ep\<close> and the table read has succeeded with the value \<open>v\<close>: if \<open>best_ep\<close> exceeds
  both \<open>best_cap\<close> and \<open>v\<close>, the probe returns \<open>best_ep\<close> with \<^verbatim>\<open>*success = 2\<close>; if
  \<open>best_ep\<close> exceeds \<open>best_cap\<close> but not \<open>v\<close>, the probe goes on as it does with
  \<open>best_cap = best_ep\<close>: it returns \<open>best_ep\<close> when \<open>best_ep = v\<close>, and otherwise makes
  the stalemate test and returns \<open>best_ep\<close> or \<open>v\<close>.
\<close>

theorem wdl_en_passant_reconciled:
  assumes "wdl_captures n E ts pos (capture_list E pos) (- 3) (- 3) 1 = Inr (Next (best_cap, best_ep, s, ts1))"
    and "probe_wdl_table E ts1 pos s = (v, s2, ts2)"
    and "s2 \<noteq> 0"
  shows "(best_ep > best_cap \<and> best_ep > v \<longrightarrow> TB_probe_wdl n E ts pos = Inr (best_ep, 2, ts2)) \<and>
         (best_ep > best_cap \<and> best_ep \<le> v \<longrightarrow>
            TB_probe_wdl n E ts pos =
              Inr (if best_ep \<ge> v then (best_ep, 1 + (if best_ep > 0 then 1 else 0), ts2)
                   else if v = 0 \<and> stalemate_without_ep E pos (capture_list E pos) then (best_ep, 2, ts2)
                   else (v, s2, ts2)))"
proof -
  from wdl_captures_out[OF assms(1)] have "- 3 \<le> best_cap"
    by (simp add: wdl_loop_post_def)
  then show ?thesis
    unfolding TB_probe_wdl_next[OF assms(1,2)] using assms(3)
    by (auto simp: wdl_reconcile_def Let_def)
qed

text \<open>
  In \<open>ep_best\<close> the capture en passant draws, no other capture exists and the table
  stores a loss: the probe returns the draw with \<^verbatim>\<open>*success = 2\<close>. In \<open>ep_only\<close> the
  table stores a draw as well, and \<open>best_ep\<close> is returned through \<open>best_cap\<close>.
\<close>

theorem wdl_en_passant_reconciled_witness:
  "TB_probe_wdl (Suc 0) chess tables ep_best = Inr (0, 2, tables) \<and>
   TB_probe_wdl (Suc 0) chess tables ep_only = Inr (0, 1, tables)"
  using wdl_en_passant_reconciled[OF ep_best_loop ep_best_table]
        wdl_en_passant_reconciled[OF ep_only_loop ep_only_table]
  by simp

text \<open>
  C4, as amended. When the capture loop has run through with some \<open>best_ep > - 3\<close>, the
  table value is 0 and the position without the en-passant capture is stalemate (no
  generated move other than an en-passant capture is legal), \<^verbatim>\<open>TB_probe_wdl\<close> returns
  \<open>best_ep\<close>; \<^verbatim>\<open>*success\<close> is 2 when \<open>best_ep\<close> is not 0, and 1 when \<open>best_ep = 0\<close>, where
  the value is returned by the comparison of \<open>best_cap\<close> with \<open>v\<close> (line 418) before
  the stalemate test is reached.
\<close>

theorem wdl_stalemate_with_en_passant:
  assumes "wdl_captures n E ts pos (capture_list E pos) (- 3) (- 3) 1 = Inr (Next (best_cap, best_ep, s, ts1))"
    and "best_ep > - 3"
    and "probe_wdl_table E ts1 pos s = (0, s2, ts2)"
    and "s2 \<noteq> 0"
    and "stalemate_without_ep E pos (capture_list E pos)"
  shows "TB_probe_wdl n E ts pos = Inr (best_ep, if best_ep = 0 then 1 else 2, ts2)"
proof -
  from assms(5) have "no_legal_non_ep E pos (capture_list E pos)"
    by (simp add: stalemate_without_ep_def)
  from wdl_captures_only_ep[OF this assms(1)] have "best_cap = - 3" .
  with assms(2,4,5) show ?thesis
    unfolding TB_probe_wdl_next[OF assms(1,3)]
    by (auto simp: wdl_reconcile_def Let_def)
qed

text \<open>
  In \<open>ep_forced\<close> the only legal move, the capture en passant, loses: the probe returns
  \<open>- 2\<close> with \<^verbatim>\<open>*success = 2\<close>, not the draw of the table.
\<close>

theorem wdl_stalemate_with_en_passant_witness:
  "TB_probe_wdl (Suc 0) chess tables ep_forced = Inr (- 2, 2, tables)"
  using wdl_stalemate_with_en_passant[OF ep_forced_loop _ ep_forced_table _ ep_forced_stalemate]
  by simp

text \<open>
  C4 as stated fails in \<open>ep_only\<close>: the capture en passant is the only legal move and
  draws, the table stores a draw, and the probe returns the draw with
  \<^verbatim>\<open>*success = 1\<close>, not 2.
\<close>

theorem wdl_stalemate_with_en_passant_counterexample:
  "wdl_captures (Suc 0) chess tables ep_only (capture_list chess ep_only) (- 3) (- 3) 1
     = Inr (Next (- 3, 0, 1, tables)) \<and>
   probe_wdl_table chess tables ep_only 1 = (0, 1, tables) \<and>
   stalemate_without_ep chess ep_only (capture_list chess ep_only) \<and>
   TB_probe_wdl (Suc 0) chess tables ep_only = Inr (0, 1, tables) \<and>
   TB_probe_wdl (Suc 0) chess tables ep_only \<noteq> Inr (0, 2, tables)"
  by (simp add: ep_only_loop ep_only_table ep_only_stalemate ep_only_wdl)

text \<open>
  C9, as amended. The capture loop of \<^verbatim>\<open>TB_probe_wdl\<close> probes the legal captures in
  the order in which they are generated (\<open>pre\<close> are the captures the loop has passed
  without leaving). When it comes to a legal capture whose probe succeeds with the value
  2 (the negated result of \<^verbatim>\<open>probe_ab\<close> on the child), the probe returns 2 with
  \<^verbatim>\<open>*success = 2\<close> there and then: the registry it returns is the one the search of
  that child left, and the WDL table of the position itself is not looked up. When it
  comes to a legal capture whose probe fails, the probe returns 0 with
  \<^verbatim>\<open>*success = 0\<close> there and then (line 385), whatever the captures behind it are worth.
\<close>

theorem wdl_winning_capture_returns_at_once:
  assumes "capture_list E pos = pre @ m # post"
    and "wdl_captures n E ts pos pre (- 3) (- 3) 1 = Inr (Next (bc, be, s, ts1))"
    and "is_capture E pos m" and "is_legal E pos m"
    and "probe_ab n E ts1 (do_move E pos m (gives_check E pos m)) (- 2) (- bc) s = Inr (r, s', ts2)"
  shows "(s' \<noteq> 0 \<and> - r = 2 \<longrightarrow> TB_probe_wdl n E ts pos = Inr (2, 2, ts2)) \<and>
         (s' = 0 \<longrightarrow> TB_probe_wdl n E ts pos = Inr (0, 0, ts2))"
proof -
  from wdl_captures_out[OF assms(2)] have bc: "bc \<le> 1"
    by (simp add: wdl_loop_post_def)
  have loop: "wdl_captures n E ts pos (capture_list E pos) (- 3) (- 3) 1 =
                wdl_captures n E ts1 pos (m # post) bc be s"
    using assms(1,2) by (simp add: wdl_captures_append)
  have win: "TB_probe_wdl n E ts pos = Inr (2, 2, ts2)" if "s' \<noteq> 0" "- r = 2"
  proof -
    from that bc have "wdl_captures n E ts1 pos (m # post) bc be s = Inr (Return (2, 2, ts2))"
      unfolding wdl_captures_step[OF assms(3,4,5)] by simp
    with loop show ?thesis by (simp add: TB_probe_wdl_cases)
  qed
  have fail: "TB_probe_wdl n E ts pos = Inr (0, 0, ts2)" if "s' = 0"
  proof -
    from that have "wdl_captures n E ts1 pos (m # post) bc be s = Inr (Return (0, 0, ts2))"
      unfolding wdl_captures_step[OF assms(3,4,5)] by simp
    with loop show ?thesis by (simp add: TB_probe_wdl_cases)
  qed
  from win fail show ?thesis by blast
qed

text \<open>
  In \<open>rook_win\<close> the capture Rh1xh8 mates. The registry holds no table for the
  position itself (a read of it fails), and the probe still returns 2.
\<close>

theorem wdl_winning_capture_returns_at_once_witness:
  "TB_probe_wdl (Suc 0) chess tables_no_krkr rook_win = Inr (2, 2, tables_no_krkr) \<and>
   probe_wdl_table chess tables_no_krkr rook_win 1 = (0, 0, tables_no_krkr)"
  using wdl_winning_capture_returns_at_once[OF rook_win_captures _ rook_win_capture_legal rook_win_child]
        rook_win_no_table
  by simp

text \<open>
  C9 as stated fails in \<open>rook_choice\<close> without the table of king and rook against king
  and rook: the legal capture Rh1xh8 has the value 2, but the capture Rh1xg1 is probed
  first, its probe fails, and \<^verbatim>\<open>TB_probe_wdl\<close> returns 0 with \<^verbatim>\<open>*success = 0\<close>.
\<close>

theorem wdl_winning_capture_returns_at_once_counterexample:
  "is_capture chess rook_choice (mv 7 63) \<and> is_legal chess rook_choice (mv 7 63) \<and>
   probe_ab (Suc 0) chess tables_no_krkr
     (do_move chess rook_choice (mv 7 63) (gives_check chess rook_choice (mv 7 63))) (- 2) 3 1
     = Inr (- 2, 1, tables_no_krkr) \<and>
   TB_probe_wdl (Suc 0) chess tables_no_krkr rook_choice = Inr (0, 0, tables_no_krkr) \<and>
   TB_probe_wdl (Suc 0) chess tables_no_krkr rook_choice \<noteq> Inr (2, 2, tables_no_krkr)"
  by (intro conjI rook_choice_mate_value rook_choice_wdl) (simp add: rook_choice_wdl)

text \<open>
  C5. In \<^verbatim>\<open>TB_root_probe\<close> with a root value \<open>dtz > 0\<close>, after every root move has been
  given its value: let \<open>best\<close> be the smallest positive value among the root moves (it
  exists and is below the start value \<^verbatim>\<open>0xffff\<close> of the search for it). The probe
  returns 1, and the first \<^verbatim>\<open>*num_moves\<close> moves of the list are, in their order,
  exactly the moves whose value \<open>v\<close> satisfies \<open>0 < v\<close> and \<open>v \<le> max_dtz_allowed\<close>, where
  \<open>max_dtz_allowed\<close> is \<open>99 - cnt50\<close> when \<^verbatim>\<open>has_repeated\<close> is false and
  \<open>best + cnt50 \<le> 99\<close>, and \<open>best\<close> otherwise. The list \<open>rm1\<close> is the list of root
  moves with the values the loop over them has stored.
\<close>

theorem root_probe_win_keeps_within_budget:
  assumes "TB_probe_dtz n E ts pos = Inr (dtz, s, ts1)" and "s \<noteq> 0" and "0 < dtz"
    and "root_probe_moves n E ts1 pos dtz rm 0 num s = Inr (Next (rm1, s1, ts2))"
    and "has_repeated pos = Inr rep"
    and "best \<in> mvalue ` set (take num rm1)" and "0 < best"
    and "\<forall>e \<in> set (take num rm1). 0 < mvalue e \<longrightarrow> best \<le> mvalue e"
    and "best \<le> 0xffff"
  shows "\<exists>rm2 j. TB_root_probe n E ts pos rm num score
                    = Inr (1, rm2, j, root_score E dtz (pos_rule50_count pos), ts2) \<and>
           map move (take j rm2) =
             map move (filter (\<lambda>e. 0 < mvalue e \<and> mvalue e \<le>
                          (if \<not> rep \<and> best + pos_rule50_count pos \<le> 99
                           then 99 - pos_rule50_count pos else best)) (take num rm1)) \<and>
           j = length (filter (\<lambda>e. 0 < mvalue e \<and> mvalue e \<le>
                          (if \<not> rep \<and> best + pos_rule50_count pos \<le> 99
                           then 99 - pos_rule50_count pos else best)) (take num rm1)) \<and>
           map move rm1 = map move rm"
proof -
  note len = root_loop_len[OF assms(4)]
  from best_win_total[OF len(1), of 0 "0xffff"] obtain b where b: "best_win rm1 0 num 0xffff = Inr b"
    by blast
  from best_win_out[OF b] have bo: "b \<le> 0xffff"
    "b = 0xffff \<or> (\<exists>k. k < num \<and> b = mvalue (rm1 ! k) \<and> 0 < b)"
    "\<forall>k. k < num \<and> 0 < mvalue (rm1 ! k) \<longrightarrow> b \<le> mvalue (rm1 ! k)"
    by auto
  from assms(6) obtain k where k: "k < num" "k < length rm1" "best = mvalue (rm1 ! k)"
    by (auto simp: in_set_conv_nth)
  with bo(3) assms(7) have le: "b \<le> best" by auto
  have ge: "best \<le> b"
  proof (cases "b = 0xffff")
    case True
    with assms(9) show ?thesis by simp
  next
    case False
    with bo(2) obtain k' where k': "k' < num" "b = mvalue (rm1 ! k')" "0 < b" by blast
    with len(1) have "rm1 ! k' \<in> set (take num rm1)"
      by (metis in_set_conv_nth length_take min.absorb2 nth_take)
    with assms(8) k' show ?thesis by auto
  qed
  from le ge have eq: "b = best" by simp
  let ?P = "\<lambda>v. 0 < v \<and> v \<le> (if \<not> rep \<and> best + pos_rule50_count pos \<le> 99
                           then 99 - pos_rule50_count pos else best)"
  from keep_moves_result[OF len(1), of ?P] obtain rm2 j where
    km: "keep_moves ?P rm1 0 0 num = Inr (rm2, j)"
      "map move (take j rm2) = map move (filter (\<lambda>e. ?P (mvalue e)) (take num rm1))"
      "j = length (filter (\<lambda>e. ?P (mvalue e)) (take num rm1))"
    by blast
  have "TB_root_probe n E ts pos rm num score = Inr (1, rm2, j, root_score E dtz (pos_rule50_count pos), ts2)"
    unfolding TB_root_probe_next[OF assms(1,2,4)] using km(1) b eq assms(3,5) by (simp add: Let_def)
  with km(2,3) len(2) show ?thesis by blast
qed

text \<open>
  The root \<open>krk\<close> with 92 plies on the counter and no repetition: the moves have the
  values 7, 13 and 1, so \<open>best = 1\<close>, seven plies are left, and the moves with the values
  7 and 1 are kept.
\<close>

theorem root_probe_win_keeps_within_budget_witness:
  "\<exists>rm2 j. TB_root_probe (Suc (Suc 0)) chess tables krk (root_moves [mv 7 55, mv 41 42, mv 7 63]) 3 0
              = Inr (1, rm2, j, 31871, tables) \<and>
           map move (take j rm2) = [mv 7 55, mv 7 63] \<and> j = 2"
proof -
  have "\<exists>rm2 j. TB_root_probe (Suc (Suc 0)) chess tables krk (root_moves [mv 7 55, mv 41 42, mv 7 63]) 3 0
              = Inr (1, rm2, j, root_score chess 1 (pos_rule50_count krk), tables) \<and>
           map move (take j rm2) =
             map move (filter (\<lambda>e. 0 < mvalue e \<and> mvalue e \<le>
                          (if \<not> False \<and> 1 + pos_rule50_count krk \<le> 99
                           then 99 - pos_rule50_count krk else 1))
                   (take 3 [\<lparr>move = mv 7 55, mvalue = 7\<rparr>, \<lparr>move = mv 41 42, mvalue = 13\<rparr>,
                            \<lparr>move = mv 7 63, mvalue = 1\<rparr>])) \<and>
           j = length (filter (\<lambda>e. 0 < mvalue e \<and> mvalue e \<le>
                          (if \<not> False \<and> 1 + pos_rule50_count krk \<le> 99
                           then 99 - pos_rule50_count krk else 1))
                   (take 3 [\<lparr>move = mv 7 55, mvalue = 7\<rparr>, \<lparr>move = mv 41 42, mvalue = 13\<rparr>,
                            \<lparr>move = mv 7 63, mvalue = 1\<rparr>])) \<and>
           map move [\<lparr>move = mv 7 55, mvalue = 7\<rparr>, \<lparr>move = mv 41 42, mvalue = 13\<rparr>,
                     \<lparr>move = mv 7 63, mvalue = 1\<rparr>]
             = map move (root_moves [mv 7 55, mv 41 42, mv 7 63])"
    by (rule root_probe_win_keeps_within_budget[OF krk_dtz _ _ krk_loop krk_not_repeated]) simp_all
  moreover have "pos_rule50_count krk = 92"
    by (simp add: pos_rule50_count_def krk_fields mk_stack_def)
  moreover have "root_score chess 1 92 = 31871"
    by (simp add: root_score_def root_wdl_def int32_def wdl_to_Value_def chess_fields)
  ultimately show ?thesis by (auto simp add: numeral_2_eq_2)
qed

text \<open>
  C6. In \<^verbatim>\<open>TB_root_probe\<close> with the root value \<open>dtz = 0\<close>, after every root move has been
  given its value, the probe returns 1, the first \<^verbatim>\<open>*num_moves\<close> moves of the list are
  exactly the moves whose value is 0, in their original order, and \<^verbatim>\<open>*num_moves\<close> is
  their number.
\<close>

theorem root_probe_draw_keeps_zero:
  assumes "TB_probe_dtz n E ts pos = Inr (0, s, ts1)" and "s \<noteq> 0"
    and "root_probe_moves n E ts1 pos 0 rm 0 num s = Inr (Next (rm1, s1, ts2))"
  shows "\<exists>rm2 j. TB_root_probe n E ts pos rm num score
                    = Inr (1, rm2, j, root_score E 0 (pos_rule50_count pos), ts2) \<and>
           map move (take j rm2) = map move (filter (\<lambda>e. mvalue e = 0) (take num rm1)) \<and>
           j = length (filter (\<lambda>e. mvalue e = 0) (take num rm1)) \<and>
           map move rm1 = map move rm"
proof -
  note len = root_loop_len[OF assms(3)]
  from keep_moves_result[OF len(1), of "\<lambda>v. v = 0"] obtain rm2 j where
    k: "keep_moves (\<lambda>v. v = 0) rm1 0 0 num = Inr (rm2, j)"
      "map move (take j rm2) = map move (filter (\<lambda>e. mvalue e = 0) (take num rm1))"
      "j = length (filter (\<lambda>e. mvalue e = 0) (take num rm1))"
    by blast
  have "TB_root_probe n E ts pos rm num score = Inr (1, rm2, j, root_score E 0 (pos_rule50_count pos), ts2)"
    unfolding TB_root_probe_next[OF assms] using k(1) by (simp add: Let_def)
  with k(2,3) len(2) show ?thesis by blast
qed

text \<open>
  The drawn root \<open>krkr\<close>: Rb1-b8 loses the rook and has the value \<open>- 2\<close>; the two king
  moves have the value 0 and are kept.
\<close>

theorem root_probe_draw_keeps_zero_witness:
  "\<exists>rm2 j. TB_root_probe (Suc (Suc 0)) chess tables krkr (root_moves [mv 1 57, mv 6 14, mv 6 13]) 3 0
              = Inr (1, rm2, j, 0, tables) \<and>
           map move (take j rm2) = [mv 6 14, mv 6 13] \<and> j = 2"
proof -
  have "\<exists>rm2 j. TB_root_probe (Suc (Suc 0)) chess tables krkr (root_moves [mv 1 57, mv 6 14, mv 6 13]) 3 0
              = Inr (1, rm2, j, root_score chess 0 (pos_rule50_count krkr), tables) \<and>
           map move (take j rm2) =
             map move (filter (\<lambda>e. mvalue e = 0)
                   (take 3 [\<lparr>move = mv 1 57, mvalue = - 2\<rparr>, \<lparr>move = mv 6 14, mvalue = 0\<rparr>,
                            \<lparr>move = mv 6 13, mvalue = 0\<rparr>])) \<and>
           j = length (filter (\<lambda>e. mvalue e = 0)
                   (take 3 [\<lparr>move = mv 1 57, mvalue = - 2\<rparr>, \<lparr>move = mv 6 14, mvalue = 0\<rparr>,
                            \<lparr>move = mv 6 13, mvalue = 0\<rparr>])) \<and>
           map move [\<lparr>move = mv 1 57, mvalue = - 2\<rparr>, \<lparr>move = mv 6 14, mvalue = 0\<rparr>,
                     \<lparr>move = mv 6 13, mvalue = 0\<rparr>]
             = map move (root_moves [mv 1 57, mv 6 14, mv 6 13])"
    by (rule root_probe_draw_keeps_zero[OF krkr_dtz _ krkr_loop]) simp
  moreover have "root_score chess 0 (pos_rule50_count krkr) = 0"
    by (simp add: root_score_def root_wdl_def int32_def wdl_to_Value_def chess_fields)
  ultimately show ?thesis by (auto simp add: numeral_2_eq_2)
qed

text \<open>
  C7. Whenever \<^verbatim>\<open>TB_root_probe\<close> returns: if the probe of the root failed
  (\<^verbatim>\<open>success = 0\<close>), or the loop over the root moves reached a move \<open>i\<close> whose probe
  failed, the return value is 0; and whenever the return value is 0, \<^verbatim>\<open>*num_moves\<close>,
  the move of every entry of the list and \<^verbatim>\<open>*score\<close> are as they were (values of
  entries before the failing one have been written).
\<close>

theorem root_probe_failure_filters_nothing:
  assumes "TB_root_probe n E ts pos rm num score = Inr (ret, rm', num', score', ts')"
  shows "(\<forall>dtz ts1. TB_probe_dtz n E ts pos = Inr (dtz, 0, ts1) \<longrightarrow> ret = 0) \<and>
         (\<forall>dtz s ts1 i rm1 s1 ts2 v ts3.
            TB_probe_dtz n E ts pos = Inr (dtz, s, ts1) \<and>
            root_probe_moves n E ts1 pos dtz rm 0 i s = Inr (Next (rm1, s1, ts2)) \<and> i < num \<and>
            root_child_value n E ts2 pos dtz s1 (move (rm ! i)) = Inr (v, 0, ts3) \<longrightarrow> ret = 0) \<and>
         (ret = 0 \<longrightarrow> num' = num \<and> map move rm' = map move rm \<and> score' = score)"
proof (intro conjI allI impI)
  fix dtz ts1
  assume "TB_probe_dtz n E ts pos = Inr (dtz, 0, ts1)"
  with assms show "ret = 0" by (simp add: TB_root_probe_def)
next
  fix dtz s ts1 i rm1 s1 ts2 v ts3
  assume h: "TB_probe_dtz n E ts pos = Inr (dtz, s, ts1) \<and>
            root_probe_moves n E ts1 pos dtz rm 0 i s = Inr (Next (rm1, s1, ts2)) \<and> i < num \<and>
            root_child_value n E ts2 pos dtz s1 (move (rm ! i)) = Inr (v, 0, ts3)"
  then have d: "TB_probe_dtz n E ts pos = Inr (dtz, s, ts1)"
    and l: "root_probe_moves n E ts1 pos dtz rm 0 i s = Inr (Next (rm1, s1, ts2))"
    and i: "i < num" and c: "root_child_value n E ts2 pos dtz s1 (move (rm ! i)) = Inr (v, 0, ts3)"
    by auto
  show "ret = 0"
  proof (cases "s = 0")
    case True
    with assms d show ?thesis by (simp add: TB_root_probe_def)
  next
    case False
    from root_probe_moves_out[OF l] have same: "rm1 ! i = rm ! i" "length rm1 = length rm"
      by (auto simp: root_loop_post_def)
    have "root_probe_moves n E ts1 pos dtz rm 0 num s =
           root_probe_moves n E ts2 pos dtz rm1 i num s1"
      using root_probe_moves_split[of 0 i num n E ts1 pos dtz rm s] i l by simp
    moreover have "root_probe_moves n E ts2 pos dtz rm1 i num s1 =
           (if length rm1 \<le> i then Inl OutOfBounds else Inr (Return (rm1, ts3)))"
      using i c same by (subst root_probe_moves.simps) simp
    ultimately show ?thesis using assms d False
      by (auto simp: TB_root_probe_def split: if_splits)
  qed
next
  assume z: "ret = 0"
  show "num' = num" "map move rm' = map move rm" "score' = score"
  proof -
    obtain dtz s ts1 where d: "TB_probe_dtz n E ts pos = Inr (dtz, s, ts1)"
      using assms by (auto simp: TB_root_probe_def split: sum.splits)
    have "num' = num \<and> map move rm' = map move rm \<and> score' = score"
    proof (cases "s = 0")
      case True
      with assms d show ?thesis by (simp add: TB_root_probe_def)
    next
      case False
      with assms d obtain c where l: "root_probe_moves n E ts1 pos dtz rm 0 num s = Inr c"
        by (auto simp: TB_root_probe_def split: sum.splits)
      show ?thesis
      proof (cases c)
        case (Return x)
        obtain rmx tsx where x: "x = (rmx, tsx)" by (cases x) auto
        from root_probe_moves_out[OF l] Return x have "map move rmx = map move rm"
          by (simp add: root_loop_post_def)
        with assms d False l Return x show ?thesis by (simp add: TB_root_probe_def)
      next
        case (Next y)
        obtain rm1 s1 ts2 where y: "y = (rm1, s1, ts2)" by (cases y) auto
        from assms z show ?thesis
          unfolding TB_root_probe_next[OF d False l[unfolded Next y]]
          by (auto simp: Let_def split: if_splits sum.splits)
      qed
    qed
    then show "num' = num" "map move rm' = map move rm" "score' = score" by simp_all
  qed
qed

text \<open>
  The root \<open>rook_win\<close> without a table for KRvKR: the mate Rh1xh8 gets the value 1, the
  probe after Rh1-g1 fails, and the list comes back with both moves and the count 2.
\<close>

theorem root_probe_failure_filters_nothing_witness:
  "root_child_value (Suc (Suc (Suc 0))) chess tables_no_krkr rook_win 1 2
       (move (root_moves [mv 7 63, mv 7 6] ! 1)) = Inr (0, 0, tables_no_krkr) \<and>
   TB_root_probe (Suc (Suc (Suc 0))) chess tables_no_krkr rook_win (root_moves [mv 7 63, mv 7 6]) 2 5
     = Inr (0, [\<lparr>move = mv 7 63, mvalue = 1\<rparr>, \<lparr>move = mv 7 6, mvalue = 0\<rparr>], 2, 5, tables_no_krkr) \<and>
   map move [\<lparr>move = mv 7 63, mvalue = 1\<rparr>, \<lparr>move = mv 7 6, mvalue = 0\<rparr>]
     = map move (root_moves [mv 7 63, mv 7 6])"
  using root_probe_failure_filters_nothing[OF rook_win_root] rook_win_root rook_win_second_move
  by simp

text \<open>
  C8, as amended. On exit from \<^verbatim>\<open>TB_probe_dtz\<close>, \<^verbatim>\<open>*success\<close> is one of \<open>- 1\<close>, 0, 1
  and 2. It is \<open>- 1\<close> only if the DTZ table is stored for the other side to move and
  either the loop over the moves that are neither captures nor pawn moves found no legal
  one to probe (then the value returned is the start value of \<open>best\<close>: \<^verbatim>\<open>INT32_MAX\<close>,
  \<open>- 1\<close> or \<open>- 101\<close>), or the recursive probe of such a move itself came back with
  \<open>- 1\<close>. The callers test \<^verbatim>\<open>*success\<close> against 0 only.
\<close>

theorem dtz_success_on_exit:
  assumes "TB_probe_dtz (Suc n) E ts pos = Inr (v, s, ts')"
  shows "(s = - 1 \<or> s = 0 \<or> s = 1 \<or> s = 2) \<and>
         (s = - 1 \<longrightarrow>
            (list_all (dtz_skipped E pos) (all_moves E pos) \<and> (v = INT32_MAX \<or> v = - 1 \<or> v = - 101)) \<or>
            child_wrong_side n E pos (all_moves E pos))"
proof -
  have "success_ok s \<and>
         (s = - 1 \<longrightarrow>
            (list_all (dtz_skipped E pos) (all_moves E pos) \<and> (v = INT32_MAX \<or> v = - 1 \<or> v = - 101)) \<or>
            child_wrong_side n E pos (all_moves E pos))"
    using assms by (rule TB_probe_dtz_exit[rotated]) (rule TB_probe_dtz_success_ok)
  then show ?thesis by (simp add: success_ok_def)
qed

text \<open>
  After Rh1-h7 in \<open>krk\<close> the table is stored for the other side; the probe of Ka8-b8
  succeeds and \<^verbatim>\<open>*success\<close> is 1 on exit. The mated king in \<open>rook_mate\<close> has no move to
  probe.
\<close>

theorem dtz_success_on_exit_witness:
  "TB_probe_dtz (Suc (Suc 0)) chess tables krk_h7 = Inr (- 6, 1, tables) \<and>
   TB_probe_dtz (Suc (Suc 0)) chess tables rook_mate = Inr (- 1, - 1, tables) \<and>
   (list_all (dtz_skipped chess rook_mate) (all_moves chess rook_mate) \<or>
    child_wrong_side (Suc 0) chess rook_mate (all_moves chess rook_mate))"
  using dtz_success_on_exit[OF krk_h7_dtz] dtz_success_on_exit[OF rook_mate_dtz]
        krk_h7_dtz rook_mate_dtz
  by simp

text \<open>
  C8 as stated fails for the mated king of \<open>rook_mate\<close>: the WDL probe returns the loss,
  the DTZ table is stored for White to move, no move is legal, and \<^verbatim>\<open>TB_probe_dtz\<close>
  returns \<open>- 1\<close> with \<^verbatim>\<open>*success = - 1\<close>.
\<close>

theorem dtz_success_on_exit_counterexample:
  "TB_probe_dtz (Suc (Suc 0)) chess tables rook_mate = Inr (- 1, - 1, tables) \<and>
   (- 1 :: int) \<notin> {0, 1, 2}"
  using rook_mate_dtz by simp

text \<open>
  C10. When \<^verbatim>\<open>TB_root_probe_wdl\<close> returns 1 and the WDL tables hold bytes from 0 to 4
  only: with \<open>rm1\<close> the list of root moves carrying as values the negated WDL values of
  their children, the first \<^verbatim>\<open>*num_moves\<close> moves of the list are exactly the moves whose
  value is the largest one among the root moves, in their original order,
  \<^verbatim>\<open>*num_moves\<close> is their number, and it is positive when the list was not empty.
\<close>

theorem root_probe_wdl_keeps_best:
  assumes "TB_root_probe_wdl n E ts pos rm num score = Inr (1, rm', num', score', ts')"
    and "wdl_bytes_ok E"
  shows "\<exists>rm1 :: ExtMove list. map move rm1 = map move rm \<and> length rm1 = length rm \<and>
           (\<forall>k < num. is_child_wdl n E pos (move (rm ! k)) (mvalue (rm1 ! k))) \<and>
           map move (take num' rm') =
             map move (filter (\<lambda>e. mvalue e = Max (mvalue ` set (take num rm1))) (take num rm1)) \<and>
           num' = length (filter (\<lambda>e. mvalue e = Max (mvalue ` set (take num rm1))) (take num rm1)) \<and>
           (0 < num \<longrightarrow> 0 < num')"
proof -
  from assms(1) obtain wdl s ts1 where w: "TB_probe_wdl n E ts pos = Inr (wdl, s, ts1)"
    by (auto simp: TB_root_probe_wdl_def split: sum.splits)
  from assms(1) w have s: "s \<noteq> 0"
    by (auto simp: TB_root_probe_wdl_def split: if_splits)
  from assms(1) w s obtain score1 where sc: "array_at (wdl_to_Value E) (wdl + 2) = Inr score1"
    by (auto simp: TB_root_probe_wdl_def split: sum.splits)
  from assms(1) w s sc obtain c where l: "root_wdl_moves n E ts1 pos rm 0 num (- 2) = Inr c"
    by (auto simp: TB_root_probe_wdl_def split: sum.splits)
  from assms(1) w s sc l obtain rm1 best ts2 where c: "c = Next (rm1, best, ts2)"
    by (cases c) (auto simp: TB_root_probe_wdl_def)
  from assms(1) w s sc l c have k: "keep_moves (\<lambda>v. v = best) rm1 0 0 num = Inr (rm', num')"
    by (auto simp: TB_root_probe_wdl_def split: sum.splits)
  from root_wdl_moves_out[OF l] c have
    a: "length rm1 = length rm" "map move rm1 = map move rm" "0 < num \<longrightarrow> num \<le> length rm"
    and b: "- 2 \<le> best" "best = - 2 \<or> (\<exists>k. k < num \<and> best = mvalue (rm1 ! k))"
    and v: "\<forall>k. k < num \<longrightarrow> mvalue (rm1 ! k) \<le> best \<and> is_child_wdl n E pos (move (rm ! k)) (mvalue (rm1 ! k))"
    by (auto simp: root_wdl_post_def)
  from a have len: "num \<le> length rm1" by (cases "0 < num") auto
  have ge: "- 2 \<le> mvalue (rm1 ! k)" if "k < num" for k
  proof -
    from v that have "is_child_wdl n E pos (move (rm ! k)) (mvalue (rm1 ! k))" by simp
    then obtain ts3 r s3 ts4 where
      p: "TB_probe_wdl n E ts3 (root_child E pos (move (rm ! k))) = Inr (r, s3, ts4)"
      and r: "mvalue (rm1 ! k) = - r"
      by (auto simp: is_child_wdl_def)
    from TB_probe_wdl_le[OF assms(2) p] r show ?thesis by simp
  qed
  let ?S = "mvalue ` set (take num rm1)"
  have mx: "Max ?S = best" if pos: "0 < num"
  proof (rule Max_eqI)
    show "finite ?S" by simp
    show "y \<le> best" if "y \<in> ?S" for y
      using that v by (auto simp: in_set_take_nth[OF len])
    show "best \<in> ?S"
    proof -
      have "\<exists>k. k < num \<and> best = mvalue (rm1 ! k)"
      proof (rule ccontr)
        assume no: "\<not> (\<exists>k. k < num \<and> best = mvalue (rm1 ! k))"
        with b(2) have "best = - 2" by simp
        moreover from v pos have "mvalue (rm1 ! 0) \<le> best" by simp
        moreover from ge[OF pos] have "- 2 \<le> mvalue (rm1 ! 0)" .
        ultimately have "best = mvalue (rm1 ! 0)" by simp
        with pos no show False by blast
      qed
      then obtain k where k: "k < num" "best = mvalue (rm1 ! k)" by blast
      with len have "rm1 ! k \<in> set (take num rm1)"
        unfolding in_set_take_nth[OF len] by blast
      with k(2) show ?thesis by simp
    qed
  qed
  have flt: "filter (\<lambda>e. mvalue e = Max ?S) (take num rm1) = filter (\<lambda>e. mvalue e = best) (take num rm1)"
  proof (cases "0 < num")
    case True
    with mx show ?thesis by simp
  next
    case False
    then show ?thesis by simp
  qed
  note km = keep_moves_filter[OF k]
  have ne: "0 < num'" if pos: "0 < num"
  proof -
    from pos len have "take num rm1 \<noteq> []" by auto
    then have "?S \<noteq> {}" by simp
    with mx[OF pos] have "best \<in> ?S" using Max_in[of ?S] by auto
    then obtain e where "e \<in> set (take num rm1)" "mvalue e = best" by auto
    then have "filter (\<lambda>e. mvalue e = best) (take num rm1) \<noteq> []"
      by (auto simp: filter_empty_conv)
    with km(2) show ?thesis by simp
  qed
  have v': "\<forall>k < num. is_child_wdl n E pos (move (rm ! k)) (mvalue (rm1 ! k))"
    using v by simp
  have "map move rm1 = map move rm \<and> length rm1 = length rm \<and>
           (\<forall>k < num. is_child_wdl n E pos (move (rm ! k)) (mvalue (rm1 ! k))) \<and>
           map move (take num' rm') =
             map move (filter (\<lambda>e. mvalue e = Max (mvalue ` set (take num rm1))) (take num rm1)) \<and>
           num' = length (filter (\<lambda>e. mvalue e = Max (mvalue ` set (take num rm1))) (take num rm1)) \<and>
           (0 < num \<longrightarrow> 0 < num')"
    unfolding flt using a(1,2) v' km ne by blast
  then show ?thesis by blast
qed

text \<open>
  The root \<open>krkr\<close>: the values are \<open>- 2\<close>, 0 and 0, and the two drawing king moves are
  kept.
\<close>

theorem root_probe_wdl_keeps_best_witness:
  "TB_root_probe_wdl (Suc (Suc 0)) chess tables krkr (root_moves [mv 1 57, mv 6 14, mv 6 13]) 3 0
     = Inr (1, [\<lparr>move = mv 6 14, mvalue = - 2\<rparr>, \<lparr>move = mv 6 13, mvalue = 0\<rparr>,
                \<lparr>move = mv 6 13, mvalue = 0\<rparr>], 2, 0, tables) \<and>
   (\<exists>rm1 :: ExtMove list.
      map move rm1 = map move (root_moves [mv 1 57, mv 6 14, mv 6 13]) \<and> length rm1 = 3 \<and>
      map move (filter (\<lambda>e. mvalue e = Max (mvalue ` set (take 3 rm1))) (take 3 rm1))
        = [mv 6 14, mv 6 13])"
proof -
  from root_probe_wdl_keeps_best[OF krkr_root_wdl chess_bytes_ok] obtain rm1 :: "ExtMove list" where
    h: "map move rm1 = map move (root_moves [mv 1 57, mv 6 14, mv 6 13]) \<and>
        length rm1 = length (root_moves [mv 1 57, mv 6 14, mv 6 13]) \<and>
        (\<forall>k < 3. is_child_wdl (Suc (Suc 0)) chess krkr (move (root_moves [mv 1 57, mv 6 14, mv 6 13] ! k))
                    (mvalue (rm1 ! k))) \<and>
        map move (take 2 [\<lparr>move = mv 6 14, mvalue = - 2\<rparr>, \<lparr>move = mv 6 13, mvalue = 0\<rparr>,
                \<lparr>move = mv 6 13, mvalue = 0\<rparr>]) =
            map move (filter (\<lambda>e. mvalue e = Max (mvalue ` set (take 3 rm1))) (take 3 rm1)) \<and>
        2 = length (filter (\<lambda>e. mvalue e = Max (mvalue ` set (take 3 rm1))) (take 3 rm1)) \<and>
        ((0 :: nat) < 3 \<longrightarrow> (0 :: nat) < 2)" ..
  from h have a: "map move rm1 = map move (root_moves [mv 1 57, mv 6 14, mv 6 13])"
       "length rm1 = length (root_moves [mv 1 57, mv 6 14, mv 6 13])"
    by (rule conjunct1, rule conjunct2[THEN conjunct1])
  from h have b: "map move (take 2 [\<lparr>move = mv 6 14, mvalue = - 2\<rparr>, \<lparr>move = mv 6 13, mvalue = 0\<rparr>,
                \<lparr>move = mv 6 13, mvalue = 0\<rparr>]) =
            map move (filter (\<lambda>e. mvalue e = Max (mvalue ` set (take 3 rm1))) (take 3 rm1))"
    by (rule conjunct2[THEN conjunct2, THEN conjunct2, THEN conjunct1])
  from a(2) have l: "length rm1 = 3" by (simp add: root_moves_def)
  from b have f: "map move (filter (\<lambda>e. mvalue e = Max (mvalue ` set (take 3 rm1))) (take 3 rm1))
                    = [mv 6 14, mv 6 13]"
    by simp
  from a(1) l f have "map move rm1 = map move (root_moves [mv 1 57, mv 6 14, mv 6 13]) \<and> length rm1 = 3 \<and>
      map move (filter (\<lambda>e. mvalue e = Max (mvalue ` set (take 3 rm1))) (take 3 rm1))
        = [mv 6 14, mv 6 13]"
    by (intro conjI)
  then have "\<exists>rm1 :: ExtMove list.
      map move rm1 = map move (root_moves [mv 1 57, mv 6 14, mv 6 13]) \<and> length rm1 = 3 \<and>
      map move (filter (\<lambda>e. mvalue e = Max (mvalue ` set (take 3 rm1))) (take 3 rm1))
        = [mv 6 14, mv 6 13]"
    by (rule exI[of _ rm1])
  with krkr_root_wdl show ?thesis by (rule conjI)
qed

end
